theory Spec2Isabelle
  imports Main "HOL-Library.Signed_Division" "HOL-Library.Multiset"
begin

section \<open>Data model of pisim\<close>

text \<open>
  The program decides bisimilarity of two finite labelled transition systems by
  Kanellakis-Smolka partition refinement. The labelled transition system itself
  (\<open>pifra.Lts\<close>, \<open>pifra.Transition\<close>, \<open>pifra.Label\<close>, \<open>pifra.Configuration\<close>) comes from
  an external library: a label is an opaque value compared with \<open>==\<close> and used as a map
  key, so it is a type variable here; the configuration attached to a state is never read,
  so \<open>lts.States\<close> (a \<open>map[int]Configuration\<close>) is represented by its key set.

  Go's \<open>int\<close> is taken to be 64 bits wide. State identifiers are arbitrary inputs, so the
  arithmetic of \<open>uniquify\<close> wraps around as the machine does. The block-id counter and the
  class labels start at 0 and grow by one per allocation; they are unbounded integers here,
  since reaching the 64-bit limit takes \<open>2 ^ 63\<close> allocations.
\<close>

record 'l Transition =
  Source :: int
  Label :: 'l
  Destination :: int

record 'l Lts =
  States :: "int set"
  Transitions :: "'l Transition list"
  RegSizeReached :: "int \<rightharpoonup> bool"

text \<open>\<open>type Block struct { id int; states States }\<close>, with \<open>States\<close> a set of state ids.\<close>

record Block =
  block_id :: int
  block_states :: "int set"

text \<open>
  \<open>type Partition struct { blocks Blocks; states StateBlocks; actions Actions }\<close>:
  the blocks keyed by their ids, the containing block of each state, and the transitions
  of each label.
\<close>

record 'l Partition =
  blocks :: "int \<rightharpoonup> Block"
  states :: "int \<rightharpoonup> Block"
  actions :: "'l \<rightharpoonup> 'l Transition list"

section \<open>Uniquification\<close>

text \<open>Two's-complement wrap-around of a 64-bit signed integer.\<close>

definition wrap64 :: "int \<Rightarrow> int" where
  "wrap64 x = (x + 2 ^ 63) mod 2 ^ 64 - 2 ^ 63"

text \<open>The closure \<open>uniquify\<close> inside \<open>uniquifyLTS\<close>: \<open>(id * 2) + offset\<close> on Go ints.\<close>

definition uniquify :: "bool \<Rightarrow> int \<Rightarrow> int" where
  "uniquify right ident = wrap64 (wrap64 (ident * 2) + (if right then 1 else 0))"

definition uniquifyTrans :: "bool \<Rightarrow> 'l Transition \<Rightarrow> 'l Transition" where
  "uniquifyTrans right tr =
     tr\<lparr>Source := uniquify right (Source tr),
           Destination := uniquify right (Destination tr)\<rparr>"

text \<open>
  \<open>uniquifyLTS\<close> replaces the state map by one keyed by the uniquified ids and rewrites
  source and destination of every transition in place. \<open>RegSizeReached\<close> is left as it is.
\<close>

definition uniquifyLTS :: "'l Lts \<Rightarrow> bool \<Rightarrow> 'l Lts" where
  "uniquifyLTS lts right =
     lts\<lparr>States := uniquify right ` States lts,
         Transitions := map (uniquifyTrans right) (Transitions lts)\<rparr>"

section \<open>Partition construction\<close>

text \<open>
  \<open>newBlock\<close> reads the global \<open>blockIDCounter\<close> and increments it; the counter is passed
  in and returned.
\<close>

definition newBlock :: "int \<Rightarrow> Block \<times> int" where
  "newBlock c = (\<lparr>block_id = c, block_states = {}\<rparr>, c + 1)"

text \<open>
  \<open>collectStates\<close> adds every state of the LTS to \<open>block.states\<close> and points the state
  index at \<open>block\<close>. A Go map is a reference: the \<open>Block\<close> values stored earlier in
  \<open>part.blocks\<close> and \<open>part.states\<close> are struct copies that share the one \<open>states\<close> map
  created by \<open>newBlock\<close> together with the id, so the insertions are visible through all
  of them. The model therefore rewrites every stored copy that carries the same id.
\<close>

definition shareStates :: "Block \<Rightarrow> Block \<Rightarrow> Block" where
  "shareStates block b = (if block_id b = block_id block then block else b)"

definition collectStates :: "'l Partition \<Rightarrow> Block \<Rightarrow> 'l Lts \<Rightarrow> 'l Partition \<times> Block" where
  "collectStates part block lts =
     (let block' = block\<lparr>block_states := block_states block \<union> States lts\<rparr>
      in (part\<lparr>blocks := (\<lambda>k. map_option (shareStates block') (blocks part k)),
               states := (\<lambda>s. if s \<in> States lts then Some block'
                               else map_option (shareStates block') (states part s))\<rparr>,
          block'))"

fun collectActions_loop ::
  "('l \<rightharpoonup> 'l Transition list) \<Rightarrow> 'l Transition list \<Rightarrow> ('l \<rightharpoonup> 'l Transition list)" where
  "collectActions_loop acts [] = acts"
| "collectActions_loop acts (tr # rest) =
     collectActions_loop
       (case acts (Label tr) of
          Some slice \<Rightarrow> acts(Label tr \<mapsto> slice @ [tr])
        | None \<Rightarrow> acts(Label tr \<mapsto> [tr]))
       rest"

definition collectActions :: "'l Partition \<Rightarrow> 'l Lts \<Rightarrow> 'l Partition" where
  "collectActions part lts = part\<lparr>actions := collectActions_loop (actions part) (Transitions lts)\<rparr>"

definition add :: "(int \<rightharpoonup> Block) \<Rightarrow> Block \<Rightarrow> (int \<rightharpoonup> Block)" where
  "add bs b = bs(block_id b \<mapsto> b)"

definition remove :: "(int \<rightharpoonup> Block) \<Rightarrow> Block \<Rightarrow> (int \<rightharpoonup> Block)" where
  "remove bs b = bs(block_id b := None)"

definition newPartition :: "'l Lts \<Rightarrow> 'l Lts \<Rightarrow> int \<Rightarrow> 'l Partition \<times> int" where
  "newPartition left right c =
     (let part0 = \<lparr>blocks = Map.empty, states = Map.empty, actions = Map.empty\<rparr>;
          (block, c') = newBlock c;
          part1 = part0\<lparr>blocks := add (blocks part0) block\<rparr>;
          (part2, block2) = collectStates part1 block left;
          (part3, block3) = collectStates part2 block2 right;
          part4 = collectActions part3 left;
          part5 = collectActions part4 right
      in (part5, c'))"

section \<open>Destination signature\<close>

text \<open>
  A lookup of a missing key in \<open>part.states\<close> yields the zero \<open>Block\<close>, whose id is 0 and
  whose state map is nil.
\<close>

definition zeroBlock :: Block where
  "zeroBlock = \<lparr>block_id = 0, block_states = {}\<rparr>"

definition stateBlock :: "'l Partition \<Rightarrow> int \<Rightarrow> Block" where
  "stateBlock part s = (case states part s of Some b \<Rightarrow> b | None \<Rightarrow> zeroBlock)"

definition actionTrans :: "'l Partition \<Rightarrow> 'l \<Rightarrow> 'l Transition list" where
  "actionTrans part action = (case actions part action of Some slice \<Rightarrow> slice | None \<Rightarrow> [])"

text \<open>
  The ids collected in \<open>dests\<close>: \<open>dests\<close> is a \<open>Blocks\<close> map of which only the keys are read,
  so it is the duplicate-free list of the ids added.
\<close>

definition destIds :: "int \<Rightarrow> 'l \<Rightarrow> 'l Partition \<Rightarrow> int list" where
  "destIds source action part =
     remdups (map (\<lambda>tr. block_id (stateBlock part (Destination tr)))
                  (filter (\<lambda>tr. Label tr = action \<and> Source tr = source)
                          (actionTrans part action)))"

text \<open>
  \<open>destinations\<close>: \<open>ids := make([]int, len(dests))\<close> is a slice of \<open>len(dests)\<close> zeros, to
  which the loop appends the keys of \<open>dests\<close>; \<open>sort.Ints\<close> then sorts all of it, which
  also makes the result independent of the order in which the keys were appended.
\<close>

definition destinations :: "int \<Rightarrow> 'l \<Rightarrow> 'l Partition \<Rightarrow> int list" where
  "destinations source action part =
     (let dests = destIds source action part
      in sort (replicate (length dests) 0 @ dests))"

fun equalInts_loop :: "int list \<Rightarrow> int list \<Rightarrow> bool" where
  "equalInts_loop [] b = True"
| "equalInts_loop (x # a) [] = False"
| "equalInts_loop (x # a) (y # b) = (if y \<noteq> x then False else equalInts_loop a b)"

definition equalInts :: "int list \<Rightarrow> int list \<Rightarrow> bool" where
  "equalInts a b = (if length a \<noteq> length b then False else equalInts_loop a b)"

section \<open>Split and refinement\<close>

text \<open>
  \<open>splitKS\<close> takes its representative \<open>s\<close> from the first iteration of
  \<open>range block.states\<close>, whose order Go leaves unspecified; for an empty block \<open>s\<close> stays 0.
  The representative is a parameter \<open>s\<close> of the model, and \<open>rep_ok\<close> says which values
  the program can pick. Both blocks are allocated before the members are compared.
\<close>

definition rep_ok :: "Block \<Rightarrow> int \<Rightarrow> bool" where
  "rep_ok block s = (if block_states block = {} then s = 0 else s \<in> block_states block)"

definition splitKS :: "int \<Rightarrow> Block \<Rightarrow> 'l \<Rightarrow> 'l Partition \<Rightarrow> int \<Rightarrow> Block \<times> Block \<times> int" where
  "splitKS s block action part c =
     (let (b1, c1) = newBlock c;
          (b2, c2) = newBlock c1;
          sdests = destinations s action part;
          b1' = b1\<lparr>block_states :=
                  Set.filter (\<lambda>t. equalInts sdests (destinations t action part))
                             (block_states block)\<rparr>;
          b2' = b2\<lparr>block_states :=
                  Set.filter (\<lambda>t. \<not> equalInts sdests (destinations t action part))
                             (block_states block)\<rparr>
      in if block_states b2' = {} then (block, b2', c2) else (b1', b2', c2))"

definition refine :: "'l Partition \<Rightarrow> Block \<Rightarrow> Block \<Rightarrow> Block \<Rightarrow> 'l Partition" where
  "refine part b b1 b2 =
     part\<lparr>blocks := add (add (remove (blocks part) b) b1) b2,
          states := (\<lambda>state. if state \<in> block_states b
                             then (if state \<in> block_states b1 then Some b1 else Some b2)
                             else states part state)\<rparr>"

text \<open>
  One pass of the loop body of \<open>partKS\<close>. The order in which \<open>range part.blocks\<close> and
  \<open>range part.actions\<close> yield their entries is chosen by the Go runtime, so a pass takes
  it as input: the list of blocks in the order visited, each with the labels in the order
  visited for that block and the representative \<open>splitKS\<close> picks at that call. The result
  is the partition, the counter and the flag \<open>changed\<close>.
\<close>

type_synonym 'l scan_order = "(int \<times> Block \<times> ('l \<times> int) list) list"

fun scanActions ::
  "int \<Rightarrow> Block \<Rightarrow> ('l \<times> int) list \<Rightarrow> 'l Partition \<Rightarrow> int \<Rightarrow> 'l Partition \<times> int \<times> bool" where
  "scanActions ident block [] part c = (part, c, False)"
| "scanActions ident block ((action, s) # rest) part c =
     (case splitKS s block action part c of
        (b1, b2, c') \<Rightarrow>
          if block_id b1 = ident then scanActions ident block rest part c'
          else (refine part block b1 b2, c', True))"

fun scanBlocks :: "'l scan_order \<Rightarrow> 'l Partition \<Rightarrow> int \<Rightarrow> 'l Partition \<times> int \<times> bool" where
  "scanBlocks [] part c = (part, c, False)"
| "scanBlocks ((ident, block, acts) # rest) part c =
     (case scanActions ident block acts part c of
        (part', c', changed) \<Rightarrow>
          if changed then (part', c', True) else scanBlocks rest part' c')"

text \<open>
  The loop \<open>for changed { ... }\<close> of \<open>partKS\<close>, driven by the scan orders of its passes.
  The list of scan orders is also the fuel: \<open>None\<close> means that the loop wanted another
  pass after the last order supplied.
\<close>

fun partKS_loop :: "'l scan_order list \<Rightarrow> 'l Partition \<Rightarrow> int \<Rightarrow> ('l Partition \<times> int) option" where
  "partKS_loop [] part c = None"
| "partKS_loop (ord # rest) part c =
     (case scanBlocks ord part c of
        (part', c', changed) \<Rightarrow>
          if changed then partKS_loop rest part' c' else Some (part', c'))"

definition partKS :: "'l scan_order list \<Rightarrow> 'l Lts \<Rightarrow> 'l Lts \<Rightarrow> int \<Rightarrow> ('l Partition \<times> int) option" where
  "partKS orders left right c =
     (case newPartition left right c of (part, c') \<Rightarrow> partKS_loop orders part c')"

section \<open>Bisimilarity oracle\<close>

text \<open>Go's \<open>%\<close> truncates towards zero, as \<open>smod\<close> does.\<close>

definition isLeft :: "int \<Rightarrow> bool" where
  "isLeft state = (state smod 2 = 0)"

text \<open>
  \<open>States.bisimilar\<close> returns true as soon as it has seen a left and a right state, and
  false when the iteration ends before that: the result does not depend on the order.
\<close>

definition States_bisimilar :: "int set \<Rightarrow> bool" where
  "States_bisimilar ss = ((\<exists>s \<in> ss. isLeft s) \<and> (\<exists>s \<in> ss. \<not> isLeft s))"

text \<open>
  \<open>Partition.bisimilar\<close> visits the blocks in the runtime's order, given as the list of
  blocks visited; \<open>None\<close> is the nil map.
\<close>

fun bisimilar_loop :: "Block list \<Rightarrow> (int \<rightharpoonup> int) \<Rightarrow> int \<Rightarrow> (int \<rightharpoonup> int) option" where
  "bisimilar_loop [] bisim label = Some bisim"
| "bisimilar_loop (block # rest) bisim label =
     (if \<not> States_bisimilar (block_states block) then None
      else bisimilar_loop rest
             (\<lambda>state. if state \<in> block_states block then Some label else bisim state)
             (label + 1))"

definition bisimilar :: "Block list \<Rightarrow> (int \<rightharpoonup> int) option" where
  "bisimilar ord = bisimilar_loop ord Map.empty 0"

section \<open>Runs of the refinement loop\<close>

text \<open>
  What the Go runtime can supply as the order of one pass over a partition: every key of
  \<open>part.blocks\<close> once, with its block; for each block every key of \<open>part.actions\<close> once;
  and at each call of \<open>splitKS\<close> a representative that the range loop can yield.
\<close>

definition valid_actions :: "'l Partition \<Rightarrow> Block \<Rightarrow> ('l \<times> int) list \<Rightarrow> bool" where
  "valid_actions part block acts =
     (distinct (map fst acts) \<and> set (map fst acts) = dom (actions part)
      \<and> (\<forall>(action, s) \<in> set acts. rep_ok block s))"

definition valid_order :: "'l Partition \<Rightarrow> 'l scan_order \<Rightarrow> bool" where
  "valid_order part ord =
     (distinct (map fst ord) \<and> set (map fst ord) = dom (blocks part)
      \<and> (\<forall>(ident, block, acts) \<in> set ord.
            blocks part ident = Some block \<and> valid_actions part block acts))"

text \<open>The orders supplied for the passes of a run are valid for the partitions the run meets.\<close>

fun valid_orders :: "'l scan_order list \<Rightarrow> 'l Partition \<Rightarrow> int \<Rightarrow> bool" where
  "valid_orders [] part c = True"
| "valid_orders (ord # rest) part c =
     (valid_order part ord
      \<and> (case scanBlocks ord part c of
            (part', c', changed) \<Rightarrow> changed \<longrightarrow> valid_orders rest part' c'))"

definition valid_run :: "'l scan_order list \<Rightarrow> 'l Lts \<Rightarrow> 'l Lts \<Rightarrow> int \<Rightarrow> bool" where
  "valid_run orders left right c =
     (case newPartition left right c of (part, c') \<Rightarrow> valid_orders orders part c')"

text \<open>
  The partitions at the start of a pass of \<open>partKS\<close>, with the value of the counter: the
  one built by \<open>newPartition\<close>, and the one left by any pass that installed a split.
\<close>

inductive reachable :: "'l Lts \<Rightarrow> 'l Lts \<Rightarrow> int \<Rightarrow> 'l Partition \<Rightarrow> int \<Rightarrow> bool"
  for left :: "'l Lts" and right :: "'l Lts" and c0 :: int where
  constructed: "newPartition left right c0 = (part, c) \<Longrightarrow> reachable left right c0 part c"
| installed: "reachable left right c0 part c \<Longrightarrow> valid_order part ord \<Longrightarrow>
     scanBlocks ord part c = (part', c', True) \<Longrightarrow> reachable left right c0 part' c'"

text \<open>An order in which \<open>range p.blocks\<close> can yield the blocks of a partition.\<close>

definition valid_enum :: "'l Partition \<Rightarrow> Block list \<Rightarrow> bool" where
  "valid_enum part bs = (distinct bs \<and> set bs = ran (blocks part))"

text \<open>The split of \<open>block\<close> under \<open>action\<close> with representative \<open>s\<close> divides the block.\<close>

definition splits :: "'l Partition \<Rightarrow> Block \<Rightarrow> 'l \<Rightarrow> int \<Rightarrow> bool" where
  "splits part block action s =
     ({t \<in> block_states block. destinations t action part \<noteq> destinations s action part} \<noteq> {})"

text \<open>A partition is stable when no two members of a block differ in a signature.\<close>

definition stable :: "'l Partition \<Rightarrow> bool" where
  "stable part =
     (\<forall>ident block action s t.
        blocks part ident = Some block \<and> action \<in> dom (actions part)
        \<and> s \<in> block_states block \<and> t \<in> block_states block
        \<longrightarrow> destinations s action part = destinations t action part)"

text \<open>A block is mixed when it has a left (even) and a right (odd) state.\<close>

definition mixed :: "Block \<Rightarrow> bool" where
  "mixed block = ((\<exists>s \<in> block_states block. even s) \<and> (\<exists>s \<in> block_states block. odd s))"

text \<open>
  The invariant of the loop, for the run on \<open>left\<close> and \<open>right\<close> started with the counter
  at \<open>c0\<close>: the label index is the one built at construction; every block is stored under
  its id, which lies between \<open>c0\<close> and the counter; the blocks are pairwise disjoint
  subsets of the merged state set; the state index holds, for each merged state, the block
  that contains it, and nothing else; and either the partition is still the constructed
  one, or every block is non-empty and has an id above \<open>c0\<close>.
\<close>

definition part_inv :: "'l Lts \<Rightarrow> 'l Lts \<Rightarrow> int \<Rightarrow> 'l Partition \<Rightarrow> int \<Rightarrow> bool" where
  "part_inv left right c0 part c =
     (actions part = actions (fst (newPartition left right c0))
      \<and> finite (dom (blocks part)) \<and> dom (blocks part) \<noteq> {}
      \<and> (\<forall>k b. blocks part k = Some b \<longrightarrow>
            block_id b = k \<and> c0 \<le> k \<and> k < c \<and> block_states b \<subseteq> States left \<union> States right)
      \<and> (\<forall>k k' b b'. blocks part k = Some b \<and> blocks part k' = Some b' \<and> k \<noteq> k' \<longrightarrow>
            block_states b \<inter> block_states b' = {})
      \<and> (\<forall>s \<in> States left \<union> States right.
            \<exists>b. states part s = Some b \<and> blocks part (block_id b) = Some b \<and> s \<in> block_states b)
      \<and> (\<forall>s. s \<notin> States left \<union> States right \<longrightarrow> states part s = None)
      \<and> (part = fst (newPartition left right c0)
          \<or> (\<forall>k b. blocks part k = Some b \<longrightarrow> c0 < k \<and> block_states b \<noteq> {})))"

section \<open>The partition after a split\<close>

text \<open>
  What a pass installs when the split of \<open>block\<close> under \<open>action\<close> with representative
  \<open>s\<close> applies at counter \<open>c\<close>: the result of \<open>refine\<close> on the two blocks that \<open>splitKS\<close>
  returns.
\<close>

definition split_result :: "'l Partition \<Rightarrow> Block \<Rightarrow> 'l \<Rightarrow> int \<Rightarrow> int \<Rightarrow> 'l Partition" where
  "split_result part block action s c =
     refine part block
       \<lparr>block_id = c,
        block_states = {t \<in> block_states block. destinations t action part = destinations s action part}\<rparr>
       \<lparr>block_id = c + 1,
        block_states = {t \<in> block_states block. destinations t action part \<noteq> destinations s action part}\<rparr>"

section \<open>Classes of states\<close>

text \<open>
  The block id that \<open>destinations\<close> reads for a state: the id of its containing block, and
  0, the id of the zero \<open>Block\<close>, for an integer that is no state of the partition.
\<close>

definition cls :: "'l Partition \<Rightarrow> int \<Rightarrow> int" where
  "cls part x = block_id (stateBlock part x)"

text \<open>The destinations of the transitions from \<open>s\<close> under \<open>action\<close> in the label index.\<close>

definition succs :: "'l Partition \<Rightarrow> 'l \<Rightarrow> int \<Rightarrow> int set" where
  "succs part action s =
     Destination ` {tr \<in> set (actionTrans part action). Label tr = action \<and> Source tr = s}"

text \<open>Whatever \<open>q\<close> puts into one class, \<open>part\<close> puts into one class.\<close>

definition refines :: "'l Partition \<Rightarrow> 'l Partition \<Rightarrow> bool" where
  "refines q part = (\<forall>x y. cls q x = cls q y \<longrightarrow> cls part x = cls part y)"

section \<open>Example systems\<close>

text \<open>
  The system with states 0 and 1 and one transition from 0 to 1 labelled \<open>a\<close>, compared
  with itself: the left copy has the states 0 and 2, the right copy the states 1 and 3.
\<close>

definition exL :: "string Lts" where
  "exL = \<lparr>States = {0, 1},
          Transitions = [\<lparr>Source = 0, Label = ''a'', Destination = 1\<rparr>],
          RegSizeReached = Map.empty\<rparr>"

definition exLeft :: "string Lts" where
  "exLeft = uniquifyLTS exL False"

definition exRight :: "string Lts" where
  "exRight = uniquifyLTS exL True"

definition exBlock0 :: Block where
  "exBlock0 = \<lparr>block_id = 0, block_states = {0, 1, 2, 3}\<rparr>"

definition exPart0 :: "string Partition" where
  "exPart0 =
     \<lparr>blocks = [0 \<mapsto> exBlock0],
      states = (\<lambda>s. if s \<in> {0, 1, 2, 3} then Some exBlock0 else None),
      actions = [''a'' \<mapsto> [\<lparr>Source = 0, Label = ''a'', Destination = 2\<rparr>,
                          \<lparr>Source = 1, Label = ''a'', Destination = 3\<rparr>]]\<rparr>"

text \<open>A one-state system with a loop labelled \<open>a\<close>, compared with itself.\<close>

definition loopBlock :: Block where
  "loopBlock = \<lparr>block_id = 0, block_states = {0, 1}\<rparr>"

definition loopPart :: "string Partition" where
  "loopPart =
     \<lparr>blocks = [0 \<mapsto> loopBlock],
      states = (\<lambda>s. if s \<in> {0, 1} then Some loopBlock else None),
      actions = [''a'' \<mapsto> [\<lparr>Source = 0, Label = ''a'', Destination = 0\<rparr>,
                          \<lparr>Source = 1, Label = ''a'', Destination = 1\<rparr>]]\<rparr>"

section \<open>Example run\<close>

text \<open>
  The run of the loop on the two copies of the example system: the first pass splits
  block 0 under \<open>a\<close> with representative 0 into the blocks 1 and 2, the second pass finds
  no split. \<open>exEmpty\<close> is the system without states.
\<close>

definition exBlock1 :: Block where
  "exBlock1 = \<lparr>block_id = 1, block_states = {0, 1}\<rparr>"

definition exBlock2 :: Block where
  "exBlock2 = \<lparr>block_id = 2, block_states = {2, 3}\<rparr>"

definition exPart1 :: "string Partition" where
  "exPart1 =
     \<lparr>blocks = [1 \<mapsto> exBlock1, 2 \<mapsto> exBlock2],
      states = (\<lambda>s. if s \<in> {0, 1} then Some exBlock1
                     else if s \<in> {2, 3} then Some exBlock2 else None),
      actions = [''a'' \<mapsto> [\<lparr>Source = 0, Label = ''a'', Destination = 2\<rparr>,
                          \<lparr>Source = 1, Label = ''a'', Destination = 3\<rparr>]]\<rparr>"

definition exOrders :: "string scan_order list" where
  "exOrders =
     [[(0, exBlock0, [(''a'', 0)])],
      [(1, exBlock1, [(''a'', 0)]), (2, exBlock2, [(''a'', 2)])]]"

definition exEmpty :: "string Lts" where
  "exEmpty = \<lparr>States = {}, Transitions = [], RegSizeReached = Map.empty\<rparr>"

text \<open>
  The same orders followed by two more, which the run never consumes; the run on the two
  copies of \<open>exEmpty\<close>.
\<close>

definition exFuel :: "string scan_order list" where
  "exFuel = exOrders @ [[], []]"

definition exEmptyBlock :: Block where
  "exEmptyBlock = \<lparr>block_id = 0, block_states = {}\<rparr>"

definition exEmptyPart :: "string Partition" where
  "exEmptyPart = \<lparr>blocks = [0 \<mapsto> exEmptyBlock], states = Map.empty, actions = Map.empty\<rparr>"

text \<open>
  A second run on the two copies of the example system: the first pass picks the
  representative 2, so that the blocks 1 and 2 hold the states the other way round, and the
  second pass visits block 2 before block 1.
\<close>

definition exBlock1B :: Block where
  "exBlock1B = \<lparr>block_id = 1, block_states = {2, 3}\<rparr>"

definition exBlock2B :: Block where
  "exBlock2B = \<lparr>block_id = 2, block_states = {0, 1}\<rparr>"

definition exPart1B :: "string Partition" where
  "exPart1B =
     \<lparr>blocks = [1 \<mapsto> exBlock1B, 2 \<mapsto> exBlock2B],
      states = (\<lambda>s. if s \<in> {2, 3} then Some exBlock1B
                     else if s \<in> {0, 1} then Some exBlock2B else None),
      actions = [''a'' \<mapsto> [\<lparr>Source = 0, Label = ''a'', Destination = 2\<rparr>,
                          \<lparr>Source = 1, Label = ''a'', Destination = 3\<rparr>]]\<rparr>"

definition exOrdersB :: "string scan_order list" where
  "exOrdersB =
     [[(0, exBlock0, [(''a'', 2)])],
      [(2, exBlock2B, [(''a'', 1)]), (1, exBlock1B, [(''a'', 3)])]]"

section \<open>Uniquification: properties\<close>

lemma wrap64_id: "- (2 ^ 63) \<le> x \<Longrightarrow> x < 2 ^ 63 \<Longrightarrow> wrap64 x = x"
  by (simp add: wrap64_def)

lemma wrap64_parity: "even (wrap64 x) = even x"
proof -
  have "even ((x + 2 ^ 63) mod 2 ^ 64) = even (x + 2 ^ 63)"
    by (rule dvd_mod_iff) simp
  thus ?thesis by (simp add: wrap64_def)
qed

lemma uniquify_in_range:
  "- (2 ^ 62) \<le> s \<Longrightarrow> s < 2 ^ 62 \<Longrightarrow> uniquify right s = 2 * s + (if right then 1 else 0)"
  by (simp add: uniquify_def wrap64_id)

lemma uniquify_even: "even (uniquify False s)"
  by (simp add: uniquify_def wrap64_parity)

lemma uniquify_odd: "odd (uniquify True s)"
  by (simp add: uniquify_def wrap64_parity)

lemma sdiv_two: "0 \<le> s \<Longrightarrow> (2 * s + (if r then 1 else 0)) sdiv 2 = (s::int)"
  by (auto simp: signed_divide_int_def sgn_if)

lemma isLeft_even: "isLeft s = even s"
  by (auto simp: isLeft_def signed_modulo_int_def sgn_if elim: evenE oddE)

lemma exLeft_eq:
  "exLeft = \<lparr>States = {0, 2}, Transitions = [\<lparr>Source = 0, Label = ''a'', Destination = 2\<rparr>],
             RegSizeReached = Map.empty\<rparr>"
  by (simp add: exLeft_def exL_def uniquifyLTS_def uniquifyTrans_def uniquify_def wrap64_def)

lemma exRight_eq:
  "exRight = \<lparr>States = {1, 3}, Transitions = [\<lparr>Source = 1, Label = ''a'', Destination = 3\<rparr>],
              RegSizeReached = Map.empty\<rparr>"
  by (simp add: exRight_def exL_def uniquifyLTS_def uniquifyTrans_def uniquify_def wrap64_def)

lemma sdiv_two_left: "(2 * s) sdiv 2 = (s::int)"
  by (auto simp: signed_divide_int_def sgn_if)

lemma sdiv_two_right_neg: "s < 0 \<Longrightarrow> (2 * s + 1) sdiv 2 = (s::int) + 1"
proof -
  assume n: "s < 0"
  hence "\<bar>2 * s + 1\<bar> = 2 * (- s - 1) + 1" by simp
  hence "\<bar>2 * s + 1\<bar> div 2 = - s - 1" by simp
  moreover have "sgn (2 * s + 1) = - 1" using n by (simp add: sgn_if)
  ultimately show ?thesis by (simp add: signed_divide_int_def)
qed

text \<open>
  Claim C7, as the code has it. For an original state id \<open>s\<close> with
  \<open>- (2 ^ 62) \<le> s < 2 ^ 62\<close>, uniquification maps \<open>s\<close> to \<open>2 * s\<close> on the left and to
  \<open>2 * s + 1\<close> on the right. Go's division by 2 gives \<open>s\<close> back from the left id, and
  from the right id when \<open>s\<close> is not negative; for a negative \<open>s\<close> it truncates the right
  id to \<open>s + 1\<close>. Source and destination of every transition are rewritten by the same
  map. For every id whatsoever, the left ids are even (\<open>isLeft\<close> holds), the right ids are
  odd, and the two uniquified state sets are disjoint.
\<close>

theorem uniquify_correct:
  assumes "- (2 ^ 62) \<le> s" and "s < 2 ^ 62"
  shows "uniquify False s = 2 * s \<and> uniquify True s = 2 * s + 1
       \<and> uniquify False s sdiv 2 = s
       \<and> (0 \<le> s \<longrightarrow> uniquify True s sdiv 2 = s)
       \<and> (s < 0 \<longrightarrow> uniquify True s sdiv 2 = s + 1)
       \<and> States (uniquifyLTS lts right) = uniquify right ` States lts
       \<and> Transitions (uniquifyLTS lts right) =
           map (\<lambda>tr. \<lparr>Source = uniquify right (Source tr), Label = Label tr,
                       Destination = uniquify right (Destination tr)\<rparr>) (Transitions lts)
       \<and> (\<forall>x \<in> States (uniquifyLTS l False). even x \<and> isLeft x)
       \<and> (\<forall>y \<in> States (uniquifyLTS r True). odd y \<and> \<not> isLeft y)
       \<and> States (uniquifyLTS l False) \<inter> States (uniquifyLTS r True) = {}"
proof -
  have a: "uniquify False s = 2 * s" "uniquify True s = 2 * s + 1"
    using uniquify_in_range[OF assms] by simp_all
  have b1: "uniquify False s sdiv 2 = s"
    by (simp add: a sdiv_two_left)
  have b2: "0 \<le> s \<longrightarrow> uniquify True s sdiv 2 = s"
    using sdiv_two[of s True] by (simp add: a)
  have b3: "s < 0 \<longrightarrow> uniquify True s sdiv 2 = s + 1"
    using sdiv_two_right_neg[of s] by (simp add: a)
  have c: "Transitions (uniquifyLTS lts right) =
           map (\<lambda>tr. \<lparr>Source = uniquify right (Source tr), Label = Label tr,
                       Destination = uniquify right (Destination tr)\<rparr>) (Transitions lts)"
    by (simp add: uniquifyLTS_def uniquifyTrans_def)
  have d: "\<forall>x \<in> States (uniquifyLTS l False). even x \<and> isLeft x"
    by (auto simp: uniquifyLTS_def isLeft_even uniquify_even)
  have e: "\<forall>y \<in> States (uniquifyLTS r True). odd y \<and> \<not> isLeft y"
    using uniquify_odd by (auto simp: uniquifyLTS_def isLeft_even)
  have f: "States (uniquifyLTS l False) \<inter> States (uniquifyLTS r True) = {}"
    using d e by blast
  have g: "States (uniquifyLTS lts right) = uniquify right ` States lts"
    by (simp add: uniquifyLTS_def)
  from a b1 b2 b3 g c d e f show ?thesis by (intro conjI)
qed

theorem uniquify_correct_witness:
  "- (2 ^ 62) \<le> (1::int) \<and> (1::int) < 2 ^ 62 \<and> (0::int) \<le> 1
   \<and> uniquify False 1 = 2 \<and> uniquify True 1 = 3
   \<and> uniquify False 1 sdiv 2 = 1 \<and> uniquify True 1 sdiv 2 = 1
   \<and> - (2 ^ 62) \<le> (- 1::int) \<and> (- 1::int) < 2 ^ 62 \<and> (- 1::int) < 0
   \<and> uniquify False (- 1) = - 2 \<and> uniquify True (- 1) = - 1
   \<and> uniquify False (- 1) sdiv 2 = - 1 \<and> uniquify True (- 1) sdiv 2 = 0
   \<and> States exLeft = {0, 2} \<and> States exRight = {1, 3}
   \<and> States exLeft \<inter> States exRight = {}"
proof -
  have p: "- (2 ^ 62) \<le> (1::int)" "(1::int) < 2 ^ 62" by simp_all
  have n: "- (2 ^ 62) \<le> (- 1::int)" "(- 1::int) < 2 ^ 62" by simp_all
  note tp = uniquify_correct[OF p, of exL True exL exL]
  note tn = uniquify_correct[OF n, of exL True exL exL]
  have s: "States exLeft = {0, 2}" "States exRight = {1, 3}"
    by (simp_all add: exLeft_eq exRight_eq)
  have i: "States exLeft \<inter> States exRight = {}"
    using tp unfolding exLeft_def exRight_def by (elim conjE)
  have p1: "uniquify False 1 = 2 * 1" using tp by (elim conjE)
  have p2: "uniquify True 1 = 2 * 1 + 1" using tp by (elim conjE)
  have p3: "uniquify False 1 sdiv 2 = 1" using tp by (elim conjE)
  have p4: "0 \<le> (1::int) \<longrightarrow> uniquify True 1 sdiv 2 = 1" using tp by (elim conjE)
  have n1: "uniquify False (- 1) = 2 * (- 1)" using tn by (elim conjE)
  have n2: "uniquify True (- 1) = 2 * (- 1) + 1" using tn by (elim conjE)
  have n3: "uniquify False (- 1) sdiv 2 = - 1" using tn by (elim conjE)
  have n4: "(- 1::int) < 0 \<longrightarrow> uniquify True (- 1) sdiv 2 = - 1 + 1" using tn by (elim conjE)
  have q: "uniquify True 1 sdiv 2 = 1" "uniquify True (- 1) sdiv 2 = 0"
    using p4 n4 by simp_all
  have r: "uniquify False 1 = 2" "uniquify True 1 = 3"
    "uniquify False (- 1) = - 2" "uniquify True (- 1) = - 1"
    using p1 p2 n1 n2 by simp_all
  have z: "(0::int) \<le> 1" "(- 1::int) < 0" by simp_all
  show ?thesis
    using p(1) p(2) z(1) r(1) r(2) p3 q(1) n(1) n(2) z(2) r(3) r(4) n3 q(2) s(1) s(2) i
    by (intro conjI)
qed

text \<open>
  The claim as stated, for every state id, fails in two places: \<open>2 ^ 62 * 2\<close> wraps around
  to \<open>- (2 ^ 63)\<close>, and for the right id \<open>- 1\<close> of the original id \<open>- 1\<close> Go's division,
  which truncates towards zero, gives 0.
\<close>

theorem uniquify_counterexample:
  "uniquify False (2 ^ 62) \<noteq> 2 * 2 ^ 62 \<and> uniquify True (- 1) sdiv 2 \<noteq> - 1"
  by (simp add: uniquify_def wrap64_def signed_divide_int_def)

section \<open>Signatures and splits: properties\<close>

lemma newPartition_eq:
  "newPartition left right c =
     (\<lparr>blocks = [c \<mapsto> \<lparr>block_id = c, block_states = States left \<union> States right\<rparr>],
       states = (\<lambda>s. if s \<in> States left \<union> States right
                      then Some \<lparr>block_id = c, block_states = States left \<union> States right\<rparr>
                      else None),
       actions = collectActions_loop (collectActions_loop Map.empty (Transitions left))
                   (Transitions right)\<rparr>,
      c + 1)"
  by (auto simp: newPartition_def newBlock_def add_def collectStates_def collectActions_def
        shareStates_def Let_def fun_eq_iff Un_commute)

lemma exNew: "newPartition exLeft exRight 0 = (exPart0, 1)"
  by (auto simp: newPartition_eq exLeft_eq exRight_eq exPart0_def exBlock0_def fun_eq_iff)

lemma equalInts_loop_iff: "length a = length b \<Longrightarrow> equalInts_loop a b = (a = b)"
  by (induction a b rule: equalInts_loop.induct) auto

lemma equalInts_iff: "equalInts a b = (a = b)"
  by (auto simp: equalInts_def equalInts_loop_iff)

lemma distinct_destIds: "distinct (destIds s a p)"
  by (simp add: destIds_def)

lemma destinations_eq_iff:
  "destinations s a p = destinations t a p \<longleftrightarrow> set (destIds s a p) = set (destIds t a p)"
proof
  assume eq: "destinations s a p = destinations t a p"
  let ?ds = "destIds s a p" and ?es = "destIds t a p"
  from eq have m: "mset (replicate (length ?ds) 0 @ ?ds) = mset (replicate (length ?es) 0 @ ?es)"
    unfolding destinations_def Let_def by (metis mset_sort)
  hence "size (mset (replicate (length ?ds) 0 @ ?ds)) = size (mset (replicate (length ?es) 0 @ ?es))"
    by simp
  hence len: "length ?ds = length ?es" by simp
  with m have "mset ?ds = mset ?es" by simp
  thus "set ?ds = set ?es" by (metis set_mset_mset)
next
  assume eq: "set (destIds s a p) = set (destIds t a p)"
  let ?ds = "destIds s a p" and ?es = "destIds t a p"
  from eq have m: "mset ?ds = mset ?es"
    by (simp add: set_eq_iff_mset_eq_distinct distinct_destIds)
  hence len: "length ?ds = length ?es" by (metis size_mset)
  have "mset (replicate (length ?ds) 0 @ ?ds) = mset (replicate (length ?es) 0 @ ?es)"
    using m len by simp
  thus "destinations s a p = destinations t a p"
    unfolding destinations_def Let_def
    by (metis properties_for_sort sorted_sort mset_sort)
qed

lemma splitKS_noop:
  "{t \<in> block_states b. destinations t a p \<noteq> destinations s a p} = {} \<Longrightarrow>
   splitKS s b a p c = (b, \<lparr>block_id = c + 1, block_states = {}\<rparr>, c + 2)"
  by (auto simp: splitKS_def newBlock_def equalInts_iff Let_def)

lemma splitKS_split:
  "{t \<in> block_states b. destinations t a p \<noteq> destinations s a p} \<noteq> {} \<Longrightarrow>
   splitKS s b a p c =
     (\<lparr>block_id = c,
       block_states = {t \<in> block_states b. destinations t a p = destinations s a p}\<rparr>,
      \<lparr>block_id = c + 1,
       block_states = {t \<in> block_states b. destinations t a p \<noteq> destinations s a p}\<rparr>,
      c + 2)"
  by (auto simp: splitKS_def newBlock_def equalInts_iff Let_def)

lemmas dest_eval = destinations_def destIds_def actionTrans_def stateBlock_def zeroBlock_def

lemma exPart0_dests:
  "destinations 0 ''a'' exPart0 = [0, 0]" "destinations 1 ''a'' exPart0 = [0, 0]"
  "destinations 2 ''a'' exPart0 = []" "destinations 3 ''a'' exPart0 = []"
  by (simp_all add: dest_eval exPart0_def exBlock0_def)

lemma loopPart_dests:
  "destinations 0 ''a'' loopPart = [0, 0]" "destinations 1 ''a'' loopPart = [0, 0]"
  by (simp_all add: dest_eval loopPart_def loopBlock_def)

lemma exPart0_B2: "{t \<in> block_states exBlock0. destinations t ''a'' exPart0 \<noteq> destinations 0 ''a'' exPart0} = {2, 3}"
  by (auto simp: exBlock0_def exPart0_dests)

lemma exPart0_B1: "{t \<in> block_states exBlock0. destinations t ''a'' exPart0 = destinations 0 ''a'' exPart0} = {0, 1}"
  by (auto simp: exBlock0_def exPart0_dests)

lemma loopPart_B2: "{t \<in> block_states loopBlock. destinations t ''a'' loopPart \<noteq> destinations 0 ''a'' loopPart} = {}"
  by (auto simp: loopBlock_def loopPart_dests)

text \<open>
  Claim C1 says that the signature is the sorted, duplicate-free list of the block ids of the
  destinations. \<open>destinations\<close> returns that list behind as many zeros as it has entries.
  In the initial partition of the example, state 0 has one \<open>a\<close>-successor, in block 0, and
  its signature is \<open>[0, 0]\<close>, not \<open>[0]\<close>.
\<close>

theorem destinations_zero_padding:
  "destinations 0 ''a'' (fst (newPartition exLeft exRight 0)) = [0, 0]
   \<and> \<not> distinct (destinations 0 ''a'' (fst (newPartition exLeft exRight 0)))"
  by (simp add: exNew exPart0_dests)

text \<open>
  Claim C4. For a non-empty block \<open>B\<close> and a label \<open>a\<close>, the representative \<open>s\<close> that
  \<open>splitKS\<close> picks is a member of \<open>B\<close>; with \<open>B1\<close> the members whose signature under \<open>a\<close>
  equals that of \<open>s\<close> and \<open>B2\<close> the others, \<open>splitKS\<close> returns \<open>B\<close> itself and an empty
  second block when \<open>B2\<close> is empty, and otherwise two blocks with the fresh ids \<open>c\<close> and
  \<open>c + 1\<close> whose member sets \<open>B1\<close> and \<open>B2\<close> are non-empty, disjoint and have union \<open>B\<close>.
\<close>

theorem splitKS_spec:
  assumes "block_states block \<noteq> {}" and "rep_ok block s"
  shows "s \<in> block_states block
     \<and> ({t \<in> block_states block. destinations t action part \<noteq> destinations s action part} = {}
          \<longrightarrow> splitKS s block action part c = (block, \<lparr>block_id = c + 1, block_states = {}\<rparr>, c + 2))
     \<and> ({t \<in> block_states block. destinations t action part \<noteq> destinations s action part} \<noteq> {}
          \<longrightarrow> (\<exists>B1 B2. splitKS s block action part c =
                   (\<lparr>block_id = c, block_states = B1\<rparr>, \<lparr>block_id = c + 1, block_states = B2\<rparr>, c + 2)
                \<and> B1 = {t \<in> block_states block. destinations t action part = destinations s action part}
                \<and> B2 = block_states block - B1
                \<and> B1 \<noteq> {} \<and> B2 \<noteq> {} \<and> B1 \<inter> B2 = {} \<and> B1 \<union> B2 = block_states block))"
proof (intro conjI impI)
  let ?B1 = "{t \<in> block_states block. destinations t action part = destinations s action part}"
  let ?B2 = "{t \<in> block_states block. destinations t action part \<noteq> destinations s action part}"
  show s: "s \<in> block_states block" using assms by (simp add: rep_ok_def)
  {
    assume "?B2 = {}"
    thus "splitKS s block action part c = (block, \<lparr>block_id = c + 1, block_states = {}\<rparr>, c + 2)"
      by (rule splitKS_noop)
  }
  {
    assume n: "?B2 \<noteq> {}"
    have diff: "?B2 = block_states block - ?B1" by blast
    have ne: "?B1 \<noteq> {}" using s by blast
    have dj: "?B1 \<inter> (block_states block - ?B1) = {}" by blast
    have un: "?B1 \<union> (block_states block - ?B1) = block_states block" by blast
    have eq: "splitKS s block action part c =
       (\<lparr>block_id = c, block_states = ?B1\<rparr>,
        \<lparr>block_id = c + 1, block_states = block_states block - ?B1\<rparr>, c + 2)"
      using splitKS_split[OF n, of c] unfolding diff[symmetric] .
    have n': "block_states block - ?B1 \<noteq> {}" using n unfolding diff .
    show "\<exists>B1 B2. splitKS s block action part c =
                   (\<lparr>block_id = c, block_states = B1\<rparr>, \<lparr>block_id = c + 1, block_states = B2\<rparr>, c + 2)
                \<and> B1 = ?B1 \<and> B2 = block_states block - B1
                \<and> B1 \<noteq> {} \<and> B2 \<noteq> {} \<and> B1 \<inter> B2 = {} \<and> B1 \<union> B2 = block_states block"
      using eq ne n' dj un by blast
  }
qed

theorem splitKS_spec_witness:
  "block_states exBlock0 \<noteq> {} \<and> rep_ok exBlock0 0
   \<and> splitKS 0 exBlock0 ''a'' exPart0 1 =
       (\<lparr>block_id = 1, block_states = {0, 1}\<rparr>, \<lparr>block_id = 2, block_states = {2, 3}\<rparr>, 3)
   \<and> block_states loopBlock \<noteq> {} \<and> rep_ok loopBlock 0
   \<and> splitKS 0 loopBlock ''a'' loopPart 1 = (loopBlock, \<lparr>block_id = 2, block_states = {}\<rparr>, 3)"
proof -
  have h1: "block_states exBlock0 \<noteq> {}" "rep_ok exBlock0 0"
    by (simp_all add: exBlock0_def rep_ok_def)
  have h2: "block_states loopBlock \<noteq> {}" "rep_ok loopBlock 0"
    by (simp_all add: loopBlock_def rep_ok_def)
  show ?thesis
    using splitKS_spec [OF h1, of "''a''" exPart0 1] splitKS_spec [OF h2, of "''a''" loopPart 1]
    by (simp add: exPart0_B2 exPart0_B1 loopPart_B2) (simp add: exBlock0_def loopBlock_def rep_ok_def)
qed

text \<open>
  Claim C8, as the code has it. Every call of \<open>splitKS\<close> allocates two block ids and
  advances the counter by 2, whether the split applies or not. A no-op split returns \<open>B\<close>
  unchanged, together with an empty second block that carries the fresh id \<open>c + 1\<close>; an
  applying split returns a first block with the fresh id \<open>c\<close>.
\<close>

theorem splitKS_allocates_two:
  "snd (snd (splitKS s block action part c)) = c + 2
   \<and> block_id (fst (snd (splitKS s block action part c))) = c + 1
   \<and> ({t \<in> block_states block. destinations t action part \<noteq> destinations s action part} = {}
        \<longrightarrow> fst (splitKS s block action part c) = block
          \<and> block_states (fst (snd (splitKS s block action part c))) = {})
   \<and> ({t \<in> block_states block. destinations t action part \<noteq> destinations s action part} \<noteq> {}
        \<longrightarrow> block_id (fst (splitKS s block action part c)) = c)"
  by (cases "{t \<in> block_states block. destinations t action part \<noteq> destinations s action part} = {}")
     (simp_all add: splitKS_noop splitKS_split)

theorem splitKS_allocates_two_witness:
  "{t \<in> block_states loopBlock. destinations t ''a'' loopPart \<noteq> destinations 0 ''a'' loopPart} = {}
   \<and> fst (splitKS 0 loopBlock ''a'' loopPart 1) = loopBlock
   \<and> snd (snd (splitKS 0 loopBlock ''a'' loopPart 1)) = 3
   \<and> {t \<in> block_states exBlock0. destinations t ''a'' exPart0 \<noteq> destinations 0 ''a'' exPart0} \<noteq> {}
   \<and> block_id (fst (splitKS 0 exBlock0 ''a'' exPart0 1)) = 1
   \<and> snd (snd (splitKS 0 exBlock0 ''a'' exPart0 1)) = 3"
  using splitKS_allocates_two [of 0 loopBlock "''a''" loopPart 1]
        splitKS_allocates_two [of 0 exBlock0 "''a''" exPart0 1]
  by (simp add: loopPart_B2 exPart0_B2)

text \<open>
  The claim as stated fails: the split of the block of the one-state loop system under \<open>a\<close>
  is a no-op, and it moves the counter from 1 to 3.
\<close>

theorem splitKS_noop_counter_counterexample:
  "splitKS 0 loopBlock ''a'' loopPart 1 = (loopBlock, \<lparr>block_id = 2, block_states = {}\<rparr>, 3)
   \<and> block_states (fst (snd (splitKS 0 loopBlock ''a'' loopPart 1))) = {}
   \<and> snd (snd (splitKS 0 loopBlock ''a'' loopPart 1)) \<noteq> 1"
  by (simp add: splitKS_noop loopPart_B2)

section \<open>The loop invariant\<close>

lemma newPartition_inv:
  assumes "newPartition left right c0 = (part, c)"
  shows "part_inv left right c0 part c"
proof -
  have p: "part = fst (newPartition left right c0)" and c: "c = c0 + 1"
    using assms by (simp_all add: newPartition_eq)
  show ?thesis
    unfolding part_inv_def p c by (simp add: newPartition_eq)
qed

lemma scanActions_result:
  assumes "block_id block = k" and "k < c"
    and "scanActions k block acts part c = (part', c', changed)"
  shows "(\<not> changed \<longrightarrow> part' = part \<and> c \<le> c' \<and> (\<forall>(a, s) \<in> set acts. \<not> splits part block a s))
       \<and> (changed \<longrightarrow> (\<exists>a s c''. (a, s) \<in> set acts \<and> splits part block a s \<and> c \<le> c''
                          \<and> c' = c'' + 2 \<and> part' = split_result part block a s c''))"
  using assms(2,3)
proof (induction acts arbitrary: c)
  case Nil
  then show ?case by simp
next
  case (Cons x acts)
  obtain a s where x: "x = (a, s)" by (cases x)
  show ?case
  proof (cases "splits part block a s")
    case True
    hence ne: "{t \<in> block_states block. destinations t a part \<noteq> destinations s a part} \<noteq> {}"
      by (simp add: splits_def)
    have "k \<noteq> c" using Cons.prems(1) by simp
    with Cons.prems(2) have "changed" "c' = c + 2" "part' = split_result part block a s c"
      by (auto simp: x splitKS_split[OF ne] split_result_def)
    with True show ?thesis by (auto simp: x)
  next
    case False
    hence e: "{t \<in> block_states block. destinations t a part \<noteq> destinations s a part} = {}"
      by (simp add: splits_def)
    from Cons.prems(2) have rec: "scanActions k block acts part (c + 2) = (part', c', changed)"
      by (simp add: x splitKS_noop[OF e] assms(1))
    have "k < c + 2" using Cons.prems(1) by simp
    from Cons.IH[OF this rec]
    have n: "\<not> changed \<longrightarrow> part' = part \<and> c + 2 \<le> c' \<and> (\<forall>(a, s) \<in> set acts. \<not> splits part block a s)"
      and y: "changed \<longrightarrow> (\<exists>a s c''. (a, s) \<in> set acts \<and> splits part block a s \<and> c + 2 \<le> c''
                          \<and> c' = c'' + 2 \<and> part' = split_result part block a s c'')"
      by blast+
    have n': "\<not> changed \<longrightarrow> part' = part \<and> c \<le> c' \<and> (\<forall>(a, s) \<in> set (x # acts). \<not> splits part block a s)"
      using n False by (auto simp: x)
    have y': "changed \<longrightarrow> (\<exists>a s c''. (a, s) \<in> set (x # acts) \<and> splits part block a s \<and> c \<le> c''
                          \<and> c' = c'' + 2 \<and> part' = split_result part block a s c'')"
    proof
      assume changed
      with y obtain a' s' c'' where "(a', s') \<in> set acts" "splits part block a' s'" "c + 2 \<le> c''"
        "c' = c'' + 2" "part' = split_result part block a' s' c''" by blast
      hence "(a', s') \<in> set (x # acts) \<and> splits part block a' s' \<and> c \<le> c''
          \<and> c' = c'' + 2 \<and> part' = split_result part block a' s' c''" by simp
      thus "\<exists>a s c''. (a, s) \<in> set (x # acts) \<and> splits part block a s \<and> c \<le> c''
                          \<and> c' = c'' + 2 \<and> part' = split_result part block a s c''" by blast
    qed
    show ?thesis using n' y' by blast
  qed
qed

lemma scanBlocks_result:
  assumes "\<forall>(k, block, acts) \<in> set ord. block_id block = k \<and> k < c"
    and "scanBlocks ord part c = (part', c', changed)"
  shows "(\<not> changed \<longrightarrow> part' = part \<and> c \<le> c'
            \<and> (\<forall>(k, block, acts) \<in> set ord. \<forall>(a, s) \<in> set acts. \<not> splits part block a s))
       \<and> (changed \<longrightarrow> (\<exists>k block acts a s c''. (k, block, acts) \<in> set ord \<and> (a, s) \<in> set acts
                          \<and> splits part block a s \<and> c \<le> c''
                          \<and> c' = c'' + 2 \<and> part' = split_result part block a s c''))"
  using assms
proof (induction ord arbitrary: c)
  case Nil
  then show ?case by simp
next
  case (Cons x ord)
  obtain k block acts where x: "x = (k, block, acts)" by (cases x)
  obtain p1 c1 ch1 where sa: "scanActions k block acts part c = (p1, c1, ch1)"
    by (cases "scanActions k block acts part c")
  have kb: "block_id block = k" "k < c" using Cons.prems(1) by (auto simp: x)
  note r = scanActions_result[OF kb sa]
  show ?case
  proof (cases ch1)
    case True
    with Cons.prems(2) sa have eq: "part' = p1" "c' = c1" "changed" by (simp_all add: x)
    from r True obtain a s c'' where "(a, s) \<in> set acts" "splits part block a s" "c \<le> c''"
        "c1 = c'' + 2" "p1 = split_result part block a s c''" by blast
    hence "(k, block, acts) \<in> set (x # ord) \<and> (a, s) \<in> set acts
                          \<and> splits part block a s \<and> c \<le> c''
                          \<and> c' = c'' + 2 \<and> part' = split_result part block a s c''"
      using eq by (simp add: x)
    hence "\<exists>k block acts a s c''. (k, block, acts) \<in> set (x # ord) \<and> (a, s) \<in> set acts
                          \<and> splits part block a s \<and> c \<le> c''
                          \<and> c' = c'' + 2 \<and> part' = split_result part block a s c''" by blast
    with eq show ?thesis by blast
  next
    case False
    with r have p1: "p1 = part" "c \<le> c1" and ns: "\<forall>(a, s) \<in> set acts. \<not> splits part block a s"
      by blast+
    from Cons.prems(2) sa False have rec: "scanBlocks ord part c1 = (part', c', changed)"
      by (simp add: x p1)
    have pre: "\<forall>(k, block, acts) \<in> set ord. block_id block = k \<and> k < c1"
      using Cons.prems(1) p1(2) by (auto simp: x)
    from Cons.IH[OF pre rec]
    have n: "\<not> changed \<longrightarrow> part' = part \<and> c1 \<le> c'
            \<and> (\<forall>(k, block, acts) \<in> set ord. \<forall>(a, s) \<in> set acts. \<not> splits part block a s)"
      and y: "changed \<longrightarrow> (\<exists>k block acts a s c''. (k, block, acts) \<in> set ord \<and> (a, s) \<in> set acts
                          \<and> splits part block a s \<and> c1 \<le> c''
                          \<and> c' = c'' + 2 \<and> part' = split_result part block a s c'')"
      by blast+
    have n': "\<not> changed \<longrightarrow> part' = part \<and> c \<le> c'
            \<and> (\<forall>(k, block, acts) \<in> set (x # ord). \<forall>(a, s) \<in> set acts. \<not> splits part block a s)"
      using n ns p1(2) by (auto simp: x)
    have y': "changed \<longrightarrow> (\<exists>k block acts a s c''. (k, block, acts) \<in> set (x # ord) \<and> (a, s) \<in> set acts
                          \<and> splits part block a s \<and> c \<le> c''
                          \<and> c' = c'' + 2 \<and> part' = split_result part block a s c'')"
    proof
      assume changed
      with y obtain k' block' acts' a' s' c'' where h: "(k', block', acts') \<in> set ord"
        "(a', s') \<in> set acts'" "splits part block' a' s'" "c1 \<le> c''"
        "c' = c'' + 2" "part' = split_result part block' a' s' c''" by blast
      hence "(k', block', acts') \<in> set (x # ord) \<and> (a', s') \<in> set acts'
          \<and> splits part block' a' s' \<and> c \<le> c''
          \<and> c' = c'' + 2 \<and> part' = split_result part block' a' s' c''" using p1(2) by simp
      thus "\<exists>k block acts a s c''. (k, block, acts) \<in> set (x # ord) \<and> (a, s) \<in> set acts
                          \<and> splits part block a s \<and> c \<le> c''
                          \<and> c' = c'' + 2 \<and> part' = split_result part block a s c''" by blast
    qed
    show ?thesis using n' y' by blast
  qed
qed

lemma part_invD:
  assumes "part_inv left right c0 part c"
  shows "actions part = actions (fst (newPartition left right c0))"
    and "finite (dom (blocks part))" and "dom (blocks part) \<noteq> {}"
    and "\<And>k b. blocks part k = Some b \<Longrightarrow> block_id b = k"
    and "\<And>k b. blocks part k = Some b \<Longrightarrow> c0 \<le> k"
    and "\<And>k b. blocks part k = Some b \<Longrightarrow> k < c"
    and "\<And>k b. blocks part k = Some b \<Longrightarrow> block_states b \<subseteq> States left \<union> States right"
    and "\<And>k k' b b'. blocks part k = Some b \<Longrightarrow> blocks part k' = Some b' \<Longrightarrow> k \<noteq> k' \<Longrightarrow>
            block_states b \<inter> block_states b' = {}"
    and "\<And>s. s \<in> States left \<union> States right \<Longrightarrow>
            \<exists>b. states part s = Some b \<and> blocks part (block_id b) = Some b \<and> s \<in> block_states b"
    and "\<And>s. s \<notin> States left \<union> States right \<Longrightarrow> states part s = None"
    and "part = fst (newPartition left right c0)
          \<or> (\<forall>k b. blocks part k = Some b \<longrightarrow> c0 < k \<and> block_states b \<noteq> {})"
proof -
  note u = assms[unfolded part_inv_def]
  have a1: "actions part = actions (fst (newPartition left right c0))"
    and a2: "finite (dom (blocks part))" and a3: "dom (blocks part) \<noteq> {}"
    using u by simp_all
  have a4: "\<forall>k b. blocks part k = Some b \<longrightarrow>
            block_id b = k \<and> c0 \<le> k \<and> k < c \<and> block_states b \<subseteq> States left \<union> States right"
    using u by (elim conjE)
  have a5: "\<forall>k k' b b'. blocks part k = Some b \<and> blocks part k' = Some b' \<and> k \<noteq> k' \<longrightarrow>
            block_states b \<inter> block_states b' = {}"
    using u by (elim conjE)
  have a6: "\<forall>s \<in> States left \<union> States right.
            \<exists>b. states part s = Some b \<and> blocks part (block_id b) = Some b \<and> s \<in> block_states b"
    using u by (elim conjE)
  have a7: "\<forall>s. s \<notin> States left \<union> States right \<longrightarrow> states part s = None"
    using u by (elim conjE)
  have a8: "part = fst (newPartition left right c0)
          \<or> (\<forall>k b. blocks part k = Some b \<longrightarrow> c0 < k \<and> block_states b \<noteq> {})"
    using u by (elim conjE)
  show "actions part = actions (fst (newPartition left right c0))" by (rule a1)
  show "finite (dom (blocks part))" by (rule a2)
  show "dom (blocks part) \<noteq> {}" by (rule a3)
  show "\<And>k b. blocks part k = Some b \<Longrightarrow> block_id b = k" using a4 by blast
  show "\<And>k b. blocks part k = Some b \<Longrightarrow> c0 \<le> k" using a4 by blast
  show "\<And>k b. blocks part k = Some b \<Longrightarrow> k < c" using a4 by blast
  show "\<And>k b. blocks part k = Some b \<Longrightarrow> block_states b \<subseteq> States left \<union> States right"
    using a4 by blast
  show "\<And>k k' b b'. blocks part k = Some b \<Longrightarrow> blocks part k' = Some b' \<Longrightarrow> k \<noteq> k' \<Longrightarrow>
            block_states b \<inter> block_states b' = {}" using a5 by blast
  show "\<And>s. s \<in> States left \<union> States right \<Longrightarrow>
            \<exists>b. states part s = Some b \<and> blocks part (block_id b) = Some b \<and> s \<in> block_states b"
    using a6 by blast
  show "\<And>s. s \<notin> States left \<union> States right \<Longrightarrow> states part s = None" using a7 by blast
  show "part = fst (newPartition left right c0)
          \<or> (\<forall>k b. blocks part k = Some b \<longrightarrow> c0 < k \<and> block_states b \<noteq> {})" by (rule a8)
qed

lemma split_result_simps:
  "actions (split_result part block a s c) = actions part"
  "blocks (split_result part block a s c) =
     ((blocks part)(block_id block := None))
       (c \<mapsto> \<lparr>block_id = c, block_states = {t \<in> block_states block. destinations t a part = destinations s a part}\<rparr>,
        c + 1 \<mapsto> \<lparr>block_id = c + 1, block_states = {t \<in> block_states block. destinations t a part \<noteq> destinations s a part}\<rparr>)"
  "states (split_result part block a s c) =
     (\<lambda>st. if st \<in> block_states block
           then (if destinations st a part = destinations s a part
                 then Some \<lparr>block_id = c, block_states = {t \<in> block_states block. destinations t a part = destinations s a part}\<rparr>
                 else Some \<lparr>block_id = c + 1, block_states = {t \<in> block_states block. destinations t a part \<noteq> destinations s a part}\<rparr>)
           else states part st)"
  by (auto simp: split_result_def refine_def add_def remove_def fun_eq_iff)

lemma split_result_inv:
  assumes inv: "part_inv left right c0 part c"
    and blk: "blocks part k = Some block"
    and rep: "rep_ok block s"
    and spl: "splits part block a s"
    and le: "c \<le> c''"
  shows "part_inv left right c0 (split_result part block a s c'') (c'' + 2)"
    and "card (dom (blocks (split_result part block a s c''))) = card (dom (blocks part)) + 1"
proof -
  note I = part_invD[OF inv]
  define B1 where "B1 = {t \<in> block_states block. destinations t a part = destinations s a part}"
  define B2 where "B2 = {t \<in> block_states block. destinations t a part \<noteq> destinations s a part}"
  define b1 where "b1 = \<lparr>block_id = c'', block_states = B1\<rparr>"
  define b2 where "b2 = \<lparr>block_id = c'' + 1, block_states = B2\<rparr>"
  define part' where "part' = split_result part block a s c''"
  have idk: "block_id block = k" using I(4)[OF blk] .
  have B2ne: "B2 \<noteq> {}" using spl by (simp add: splits_def B2_def)
  hence "block_states block \<noteq> {}" by (auto simp: B2_def)
  hence "s \<in> block_states block" using rep by (simp add: rep_ok_def)
  hence B1ne: "B1 \<noteq> {}" by (auto simp: B1_def)
  have B12: "B1 \<union> B2 = block_states block" "B1 \<inter> B2 = {}" by (auto simp: B1_def B2_def)
  have kc: "c0 \<le> k" "k < c" using I(5,6)[OF blk] by simp_all
  have bl': "blocks part' = ((blocks part)(k := None))(c'' \<mapsto> b1, c'' + 1 \<mapsto> b2)"
    by (simp add: part'_def split_result_simps idk b1_def b2_def B1_def B2_def)
  have st': "states part' = (\<lambda>st. if st \<in> block_states block
           then (if st \<in> B1 then Some b1 else Some b2) else states part st)"
    by (auto simp: part'_def split_result_simps b1_def b2_def B1_def B2_def fun_eq_iff)
  have ac': "actions part' = actions part" by (simp add: part'_def split_result_simps)
  have fresh: "blocks part c'' = None" "blocks part (c'' + 1) = None"
  proof -
    { fix j assume "c \<le> j" have "blocks part j = None"
      proof (cases "blocks part j")
        case (Some b) with I(6)[OF Some] \<open>c \<le> j\<close> show ?thesis by simp
      qed simp }
    thus "blocks part c'' = None" "blocks part (c'' + 1) = None" using le by simp_all
  qed
  have old: "\<And>j b. blocks part' j = Some b \<Longrightarrow> j \<noteq> c'' \<Longrightarrow> j \<noteq> c'' + 1 \<Longrightarrow>
      blocks part j = Some b \<and> j \<noteq> k"
    by (auto simp: bl' split: if_splits)
  have cases: "\<And>j b. blocks part' j = Some b \<Longrightarrow>
      (j = c'' \<and> b = b1) \<or> (j = c'' + 1 \<and> b = b2) \<or> (blocks part j = Some b \<and> j \<noteq> k \<and> j < c)"
    using I(6) by (auto simp: bl' split: if_splits)
  have dom': "dom (blocks part') = insert c'' (insert (c'' + 1) (dom (blocks part) - {k}))"
    by (auto simp: bl' split: if_splits)
  have c1: "finite (dom (blocks part'))" "dom (blocks part') \<noteq> {}"
    using I(2) by (simp_all add: dom')
  have c3: "\<forall>j b. blocks part' j = Some b \<longrightarrow>
            block_id b = j \<and> c0 \<le> j \<and> j < c'' + 2 \<and> block_states b \<subseteq> States left \<union> States right"
  proof (intro allI impI)
    fix j b assume h: "blocks part' j = Some b"
    have sub: "block_states block \<subseteq> States left \<union> States right" using I(7)[OF blk] .
    from cases[OF h] show "block_id b = j \<and> c0 \<le> j \<and> j < c'' + 2 \<and> block_states b \<subseteq> States left \<union> States right"
    proof (elim disjE conjE)
      assume "j = c''" "b = b1" thus ?thesis using kc le sub B12 by (auto simp: b1_def)
    next
      assume "j = c'' + 1" "b = b2" thus ?thesis using kc le sub B12 by (auto simp: b2_def)
    next
      assume o: "blocks part j = Some b" "j \<noteq> k" "j < c"
      thus ?thesis using I(4)[OF o(1)] I(5)[OF o(1)] I(7)[OF o(1)] le by auto
    qed
  qed
  have dj_old: "\<And>j b. blocks part j = Some b \<Longrightarrow> j \<noteq> k \<Longrightarrow> block_states b \<inter> block_states block = {}"
    using I(8)[OF _ blk] by blast
  have c4: "\<forall>j j' b b'. blocks part' j = Some b \<and> blocks part' j' = Some b' \<and> j \<noteq> j' \<longrightarrow>
            block_states b \<inter> block_states b' = {}"
  proof (intro allI impI, elim conjE)
    fix j j' b b' assume h: "blocks part' j = Some b" "blocks part' j' = Some b'" "j \<noteq> j'"
    have s1: "block_states b1 \<subseteq> block_states block" "block_states b2 \<subseteq> block_states block"
      using B12 by (auto simp: b1_def b2_def)
    have s12: "block_states b1 \<inter> block_states b2 = {}" using B12 by (simp add: b1_def b2_def)
    have o1: "block_states x \<inter> block_states y = {}"
      if "blocks part i = Some x" "i \<noteq> k" "y = b1 \<or> y = b2" for i x y
      using dj_old[OF that(1,2)] s1 that(3) by blast
    consider (n1) "j = c''" "b = b1" | (n2) "j = c'' + 1" "b = b2"
      | (o) "blocks part j = Some b" "j \<noteq> k" "j < c"
      using cases[OF h(1)] by blast
    thus "block_states b \<inter> block_states b' = {}"
    proof cases
      case n1
      consider (n1') "j' = c''" "b' = b1" | (n2') "j' = c'' + 1" "b' = b2"
        | (o') "blocks part j' = Some b'" "j' \<noteq> k" "j' < c"
        using cases[OF h(2)] by blast
      thus ?thesis
      proof cases
        case n1' with n1 h(3) show ?thesis by simp
      next
        case n2' with n1 s12 show ?thesis by simp
      next
        case o' from o1[OF o'(1,2), of b1] n1 show ?thesis by blast
      qed
    next
      case n2
      consider (n1') "j' = c''" "b' = b1" | (n2') "j' = c'' + 1" "b' = b2"
        | (o') "blocks part j' = Some b'" "j' \<noteq> k" "j' < c"
        using cases[OF h(2)] by blast
      thus ?thesis
      proof cases
        case n1' with n2 s12 show ?thesis by (simp add: Int_commute)
      next
        case n2' with n2 h(3) show ?thesis by simp
      next
        case o' from o1[OF o'(1,2), of b2] n2 show ?thesis by blast
      qed
    next
      case o
      consider (n1') "j' = c''" "b' = b1" | (n2') "j' = c'' + 1" "b' = b2"
        | (o') "blocks part j' = Some b'" "j' \<noteq> k" "j' < c"
        using cases[OF h(2)] by blast
      thus ?thesis
      proof cases
        case n1' from o1[OF o(1,2), of b1] n1' show ?thesis by blast
      next
        case n2' from o1[OF o(1,2), of b2] n2' show ?thesis by blast
      next
        case o' from I(8)[OF o(1) o'(1) h(3)] show ?thesis .
      qed
    qed
  qed
  have c5: "\<forall>st \<in> States left \<union> States right.
            \<exists>b. states part' st = Some b \<and> blocks part' (block_id b) = Some b \<and> st \<in> block_states b"
  proof
    fix st assume m: "st \<in> States left \<union> States right"
    show "\<exists>b. states part' st = Some b \<and> blocks part' (block_id b) = Some b \<and> st \<in> block_states b"
    proof (cases "st \<in> block_states block")
      case True
      show ?thesis
      proof (cases "st \<in> B1")
        case True
        with \<open>st \<in> block_states block\<close> show ?thesis by (auto simp: st' bl' b1_def)
      next
        case False
        with \<open>st \<in> block_states block\<close> B12 have "st \<in> B2" by blast
        with False \<open>st \<in> block_states block\<close> show ?thesis by (auto simp: st' bl' b2_def)
      qed
    next
      case False
      from I(9)[OF m] obtain b where b: "states part st = Some b"
        "blocks part (block_id b) = Some b" "st \<in> block_states b" by blast
      have "block_id b \<noteq> k" using b(2,3) blk False by auto
      moreover have "block_id b < c" using I(6)[OF b(2)] .
      ultimately have "blocks part' (block_id b) = Some b" using b(2) le by (simp add: bl')
      with b False show ?thesis by (simp add: st')
    qed
  qed
  have c6: "\<forall>st. st \<notin> States left \<union> States right \<longrightarrow> states part' st = None"
    using I(7)[OF blk] I(10) by (auto simp: st')
  have c7: "\<forall>j b. blocks part' j = Some b \<longrightarrow> c0 < j \<and> block_states b \<noteq> {}"
  proof (intro allI impI)
    fix j b assume h: "blocks part' j = Some b"
    from cases[OF h] show "c0 < j \<and> block_states b \<noteq> {}"
    proof (elim disjE conjE)
      assume "j = c''" "b = b1" thus ?thesis using kc le B1ne by (simp add: b1_def)
    next
      assume "j = c'' + 1" "b = b2" thus ?thesis using kc le B2ne by (simp add: b2_def)
    next
      assume o: "blocks part j = Some b" "j \<noteq> k" "j < c"
      from I(11) show ?thesis
      proof
        assume "part = fst (newPartition left right c0)"
        hence "dom (blocks part) = {c0}" by (simp add: newPartition_eq)
        with o(1) blk have "j = c0" "k = c0" by auto
        with o(2) show ?thesis by simp
      next
        assume "\<forall>k b. blocks part k = Some b \<longrightarrow> c0 < k \<and> block_states b \<noteq> {}"
        with o(1) show ?thesis by blast
      qed
    qed
  qed
  show "part_inv left right c0 (split_result part block a s c'') (c'' + 2)"
    unfolding part_inv_def part'_def[symmetric]
    using I(1) ac' c1 c3 c4 c5 c6 c7 by simp
  have kin: "k \<in> dom (blocks part)" using blk by auto
  have nin: "c'' \<notin> dom (blocks part)" "c'' + 1 \<notin> dom (blocks part)" using fresh by auto
  have "card (dom (blocks part')) = card (dom (blocks part) - {k}) + 2"
    using nin I(2) by (simp add: dom')
  also have "\<dots> = card (dom (blocks part)) + 1"
    using card_Suc_Diff1[OF I(2) kin] by simp
  finally show "card (dom (blocks (split_result part block a s c''))) = card (dom (blocks part)) + 1"
    by (simp add: part'_def)
qed

lemma part_inv_mono:
  assumes "part_inv left right c0 part c" and "c \<le> c'"
  shows "part_inv left right c0 part c'"
proof -
  note I = part_invD[OF assms(1)]
  have "\<forall>k b. blocks part k = Some b \<longrightarrow>
          block_id b = k \<and> c0 \<le> k \<and> k < c' \<and> block_states b \<subseteq> States left \<union> States right"
  proof (intro allI impI)
    fix k b assume h: "blocks part k = Some b"
    show "block_id b = k \<and> c0 \<le> k \<and> k < c' \<and> block_states b \<subseteq> States left \<union> States right"
      using I(4)[OF h] I(5)[OF h] I(6)[OF h] I(7)[OF h] assms(2) by simp
  qed
  moreover have "\<forall>k k' b b'. blocks part k = Some b \<and> blocks part k' = Some b' \<and> k \<noteq> k' \<longrightarrow>
            block_states b \<inter> block_states b' = {}"
    using I(8) by blast
  moreover have "\<forall>s \<in> States left \<union> States right.
            \<exists>b. states part s = Some b \<and> blocks part (block_id b) = Some b \<and> s \<in> block_states b"
    using I(9) by blast
  moreover have "\<forall>s. s \<notin> States left \<union> States right \<longrightarrow> states part s = None"
    using I(10) by blast
  ultimately show ?thesis
    unfolding part_inv_def using I(1) I(2) I(3) I(11) by simp
qed

lemma valid_order_ids:
  assumes inv: "part_inv left right c0 part c" and vo: "valid_order part ord"
  shows "\<forall>(k, block, acts) \<in> set ord. block_id block = k \<and> k < c"
proof (clarify)
  fix k block acts assume m: "(k, block, acts) \<in> set ord"
  with vo have b: "blocks part k = Some block" unfolding valid_order_def by blast
  note I = part_invD[OF inv]
  show "block_id block = k \<and> k < c" using I(4)[OF b] I(6)[OF b] by simp
qed

lemma pass_changed:
  assumes inv: "part_inv left right c0 part c" and vo: "valid_order part ord"
    and sb: "scanBlocks ord part c = (part', c', True)"
  shows "\<exists>k block a s c''. blocks part k = Some block \<and> a \<in> dom (actions part)
            \<and> rep_ok block s \<and> splits part block a s \<and> c \<le> c'' \<and> c' = c'' + 2
            \<and> part' = split_result part block a s c''"
proof -
  from scanBlocks_result[OF valid_order_ids[OF inv vo] sb]
  obtain k block acts a s c'' where h: "(k, block, acts) \<in> set ord" "(a, s) \<in> set acts"
    "splits part block a s" "c \<le> c''" "c' = c'' + 2" "part' = split_result part block a s c''"
    by blast
  from vo h(1) have b: "blocks part k = Some block" and va: "valid_actions part block acts"
    unfolding valid_order_def by blast+
  from va h(2) have "a \<in> dom (actions part)" "rep_ok block s"
    unfolding valid_actions_def by force+
  with b h show ?thesis by blast
qed

lemma pass_unchanged:
  assumes inv: "part_inv left right c0 part c" and vo: "valid_order part ord"
    and sb: "scanBlocks ord part c = (part', c', False)"
  shows "part' = part" and "c \<le> c'" and "stable part"
proof -
  from scanBlocks_result[OF valid_order_ids[OF inv vo] sb]
  have r: "part' = part" "c \<le> c'"
    and ns: "\<forall>(k, block, acts) \<in> set ord. \<forall>(a, s) \<in> set acts. \<not> splits part block a s"
    by blast+
  show "part' = part" "c \<le> c'" using r by simp_all
  show "stable part"
    unfolding stable_def
  proof (intro allI impI, elim conjE)
    fix k block a s t
    assume b: "blocks part k = Some block" and a: "a \<in> dom (actions part)"
      and s: "s \<in> block_states block" and t: "t \<in> block_states block"
    from b have "k \<in> set (map fst ord)" using vo unfolding valid_order_def by auto
    then obtain block' acts where m: "(k, block', acts) \<in> set ord" by auto
    with vo have "blocks part k = Some block'" and va: "valid_actions part block' acts"
      unfolding valid_order_def by blast+
    with b have bb: "block' = block" by simp
    from a va have "a \<in> set (map fst acts)" unfolding valid_actions_def by simp
    then obtain r where ar: "(a, r) \<in> set acts" by auto
    with ns m bb have "\<not> splits part block a r" by blast
    hence "{t \<in> block_states block. destinations t a part \<noteq> destinations r a part} = {}"
      by (simp add: splits_def)
    with s t have "destinations s a part = destinations r a part"
      "destinations t a part = destinations r a part" by blast+
    thus "destinations s a part = destinations t a part" by simp
  qed
qed

lemma pass_inv:
  assumes inv: "part_inv left right c0 part c" and vo: "valid_order part ord"
    and sb: "scanBlocks ord part c = (part', c', changed)"
  shows "part_inv left right c0 part' c'"
    and "card (dom (blocks part')) = card (dom (blocks part)) + (if changed then 1 else 0)"
    and "c \<le> c'"
proof -
  have "part_inv left right c0 part' c'
      \<and> card (dom (blocks part')) = card (dom (blocks part)) + (if changed then 1 else 0)
      \<and> c \<le> c'"
  proof (cases changed)
    case True
    from sb True have sb': "scanBlocks ord part c = (part', c', True)" by simp
    from pass_changed[OF inv vo sb']
    obtain k block a s c'' where h: "blocks part k = Some block" "rep_ok block s"
      "splits part block a s" "c \<le> c''" "c' = c'' + 2" "part' = split_result part block a s c''"
      by blast
    from split_result_inv[OF inv h(1,2,3,4)] h(4,5,6) True show ?thesis by simp
  next
    case False
    from sb False have sb': "scanBlocks ord part c = (part', c', False)" by simp
    from pass_unchanged(1,2)[OF inv vo sb'] part_inv_mono[OF inv] False
    show ?thesis by simp
  qed
  thus "part_inv left right c0 part' c'"
    and "card (dom (blocks part')) = card (dom (blocks part)) + (if changed then 1 else 0)"
    and "c \<le> c'" by simp_all
qed

lemma reachable_inv:
  assumes "reachable left right c0 part c"
  shows "part_inv left right c0 part c"
  using assms
proof (induction rule: reachable.induct)
  case (constructed part c)
  then show ?case by (rule newPartition_inv)
next
  case (installed part c ord part' c')
  from pass_inv(1)[OF installed.IH installed.hyps(2) installed.hyps(3)] show ?case .
qed

lemma card_blocks_bound:
  assumes inv: "part_inv left right c0 part c"
    and fin: "finite (States left \<union> States right)"
  shows "card (dom (blocks part)) \<le> max 1 (card (States left \<union> States right))"
proof -
  note I = part_invD[OF inv]
  from I(11) show ?thesis
  proof
    assume "part = fst (newPartition left right c0)"
    hence "dom (blocks part) = {c0}" by (simp add: newPartition_eq)
    thus ?thesis by simp
  next
    assume ne: "\<forall>k b. blocks part k = Some b \<longrightarrow> c0 < k \<and> block_states b \<noteq> {}"
    define f where "f k = (SOME x. x \<in> block_states (the (blocks part k)))" for k
    have fin_b: "\<And>k b. blocks part k = Some b \<Longrightarrow> f k \<in> block_states b"
    proof -
      fix k b assume h: "blocks part k = Some b"
      with ne have "block_states b \<noteq> {}" by blast
      hence "\<exists>x. x \<in> block_states b" by blast
      hence "(SOME x. x \<in> block_states b) \<in> block_states b" by (rule someI_ex)
      thus "f k \<in> block_states b" by (simp add: f_def h)
    qed
    have inj: "inj_on f (dom (blocks part))"
    proof (rule inj_onI)
      fix k k' assume k: "k \<in> dom (blocks part)" and k': "k' \<in> dom (blocks part)" and e: "f k = f k'"
      from k k' obtain b b' where b: "blocks part k = Some b" "blocks part k' = Some b'" by blast
      show "k = k'"
      proof (rule ccontr)
        assume "k \<noteq> k'"
        from I(8)[OF b this] fin_b[OF b(1)] fin_b[OF b(2)] e show False by auto
      qed
    qed
    have sub: "f ` dom (blocks part) \<subseteq> States left \<union> States right"
    proof
      fix x assume "x \<in> f ` dom (blocks part)"
      then obtain k b where "x = f k" "blocks part k = Some b" by blast
      with fin_b[OF this(2)] I(7)[OF this(2)] show "x \<in> States left \<union> States right" by blast
    qed
    have "card (dom (blocks part)) \<le> card (States left \<union> States right)"
      by (rule card_inj_on_le[OF inj sub fin])
    thus ?thesis by simp
  qed
qed

lemma partKS_loop_sound:
  assumes "part_inv left right c0 part c" and "valid_orders orders part c"
    and "partKS_loop orders part c = Some (p, cf)"
  shows "part_inv left right c0 p cf \<and> stable p"
  using assms
proof (induction orders arbitrary: part c)
  case Nil
  then show ?case by simp
next
  case (Cons ord rest)
  obtain part' c' changed where sb: "scanBlocks ord part c = (part', c', changed)"
    by (cases "scanBlocks ord part c")
  from Cons.prems(2) have vo: "valid_order part ord" by simp
  note pi = pass_inv[OF Cons.prems(1) vo sb]
  show ?case
  proof (cases changed)
    case True
    with Cons.prems(2,3) sb have "valid_orders rest part' c'" "partKS_loop rest part' c' = Some (p, cf)"
      by simp_all
    from Cons.IH[OF pi(1) this] show ?thesis .
  next
    case False
    with Cons.prems(3) sb have e: "p = part'" "cf = c'" by simp_all
    from sb False have sb': "scanBlocks ord part c = (part', c', False)" by simp
    from pass_unchanged(1,3)[OF Cons.prems(1) vo sb'] pi(1) e show ?thesis by simp
  qed
qed

lemma partKS_loop_terminates:
  assumes "part_inv left right c0 part c" and "valid_orders orders part c"
    and "finite (States left \<union> States right)"
    and "max 1 (card (States left \<union> States right)) < card (dom (blocks part)) + length orders"
  shows "\<exists>res. partKS_loop orders part c = Some res"
  using assms
proof (induction orders arbitrary: part c)
  case Nil
  from Nil(4) have "max 1 (card (States left \<union> States right)) < card (dom (blocks part))"
    by simp
  with card_blocks_bound[OF Nil(1) Nil(3)] show ?case by linarith
next
  case (Cons ord rest)
  obtain part' c' changed where sb: "scanBlocks ord part c = (part', c', changed)"
    by (cases "scanBlocks ord part c")
  from Cons.prems(2) have vo: "valid_order part ord" by simp
  note pi = pass_inv[OF Cons.prems(1) vo sb]
  show ?case
  proof (cases changed)
    case True
    with Cons.prems(2) sb have v: "valid_orders rest part' c'" by simp
    have m: "max 1 (card (States left \<union> States right)) < card (dom (blocks part')) + length rest"
      using Cons.prems(4) pi(2) True by simp
    from Cons.IH[OF pi(1) v Cons.prems(3) m] sb True show ?thesis by simp
  next
    case False
    with sb show ?thesis by simp
  qed
qed

lemma exPart0_split: "split_result exPart0 exBlock0 ''a'' 0 1 = exPart1"
  unfolding split_result_def exPart0_B1 exPart0_B2
  by (auto simp: refine_def add_def remove_def exPart0_def exPart1_def exBlock0_def
        exBlock1_def exBlock2_def fun_eq_iff)

lemma exPass1: "scanBlocks [(0, exBlock0, [(''a'', 0)])] exPart0 1 = (exPart1, 3, True)"
proof -
  have ne: "{t \<in> block_states exBlock0. destinations t ''a'' exPart0 \<noteq> destinations 0 ''a'' exPart0} \<noteq> {}"
    by (simp add: exPart0_B2)
  have "splitKS 0 exBlock0 ''a'' exPart0 1 =
     (\<lparr>block_id = 1, block_states = {0, 1}\<rparr>, \<lparr>block_id = 2, block_states = {2, 3}\<rparr>, 3)"
    using splitKS_split[OF ne, of 1] by (simp add: exPart0_B1 exPart0_B2)
  moreover have "refine exPart0 exBlock0 \<lparr>block_id = 1, block_states = {0, 1}\<rparr>
       \<lparr>block_id = 2, block_states = {2, 3}\<rparr> = exPart1"
    using exPart0_split by (simp add: split_result_def exPart0_B1 exPart0_B2)
  ultimately show ?thesis by simp
qed

lemma exPart1_dests:
  "destinations 0 ''a'' exPart1 = [0, 2]" "destinations 1 ''a'' exPart1 = [0, 2]"
  "destinations 2 ''a'' exPart1 = []" "destinations 3 ''a'' exPart1 = []"
  by (simp_all add: dest_eval exPart1_def exBlock1_def exBlock2_def)

lemma exPart1_noop:
  "{t \<in> block_states exBlock1. destinations t ''a'' exPart1 \<noteq> destinations 0 ''a'' exPart1} = {}"
  "{t \<in> block_states exBlock2. destinations t ''a'' exPart1 \<noteq> destinations 2 ''a'' exPart1} = {}"
  by (auto simp: exBlock1_def exBlock2_def exPart1_dests)

lemma exPass2:
  "scanBlocks [(1, exBlock1, [(''a'', 0)]), (2, exBlock2, [(''a'', 2)])] exPart1 3 = (exPart1, 7, False)"
  by (simp add: splitKS_noop exPart1_noop) (simp add: exBlock1_def exBlock2_def)

lemma exValid0: "valid_order exPart0 [(0, exBlock0, [(''a'', 0)])]"
  by (simp add: valid_order_def valid_actions_def rep_ok_def exPart0_def exBlock0_def)

lemma exValid1: "valid_order exPart1 [(1, exBlock1, [(''a'', 0)]), (2, exBlock2, [(''a'', 2)])]"
  by (auto simp: valid_order_def valid_actions_def rep_ok_def exPart1_def exBlock1_def exBlock2_def)

lemma exRun_valid: "valid_run exOrders exLeft exRight 0"
  by (simp add: valid_run_def exNew exOrders_def exValid0 exValid1 exPass1 exPass2
        del: scanBlocks.simps)

lemma exRun: "partKS exOrders exLeft exRight 0 = Some (exPart1, 7)"
  by (simp add: partKS_def exNew exOrders_def exPass1 exPass2 del: scanBlocks.simps)

lemma partKS_sound:
  assumes "valid_run orders left right c0" and "partKS orders left right c0 = Some (part, c)"
  shows "part_inv left right c0 part c" and "stable part"
proof -
  obtain part0 c1 where n: "newPartition left right c0 = (part0, c1)"
    by (cases "newPartition left right c0")
  from assms n have "valid_orders orders part0 c1" "partKS_loop orders part0 c1 = Some (part, c)"
    by (simp_all add: valid_run_def partKS_def)
  from partKS_loop_sound[OF newPartition_inv[OF n] this]
  show "part_inv left right c0 part c" and "stable part" by simp_all
qed

lemma part_inv_union:
  assumes "part_inv left right c0 part c"
  shows "\<Union> (block_states ` ran (blocks part)) = States left \<union> States right"
proof
  note I = part_invD[OF assms]
  show "\<Union> (block_states ` ran (blocks part)) \<subseteq> States left \<union> States right"
    using I(7) by (auto simp: ran_def)
  show "States left \<union> States right \<subseteq> \<Union> (block_states ` ran (blocks part))"
  proof
    fix s assume "s \<in> States left \<union> States right"
    from I(9)[OF this] obtain b where "blocks part (block_id b) = Some b" "s \<in> block_states b"
      by blast
    thus "s \<in> \<Union> (block_states ` ran (blocks part))" by (auto simp: ran_def)
  qed
qed

text \<open>
  Claim C3. When \<open>partKS\<close> returns, the partition is stable: for every block, every label
  of the label index and every two members \<open>s\<close> and \<open>t\<close> of the block, the signatures of
  \<open>s\<close> and \<open>t\<close> under the label are equal.
\<close>

theorem partKS_stable:
  assumes "valid_run orders left right c0" and "partKS orders left right c0 = Some (part, c)"
  shows "\<forall>ident block action s t.
           blocks part ident = Some block \<and> action \<in> dom (actions part)
           \<and> s \<in> block_states block \<and> t \<in> block_states block
           \<longrightarrow> destinations s action part = destinations t action part"
  using partKS_sound(2)[OF assms] unfolding stable_def .

theorem partKS_stable_witness:
  "valid_run exOrders exLeft exRight 0 \<and> partKS exOrders exLeft exRight 0 = Some (exPart1, 7)
   \<and> blocks exPart1 1 = Some exBlock1 \<and> ''a'' \<in> dom (actions exPart1)
   \<and> 0 \<in> block_states exBlock1 \<and> 1 \<in> block_states exBlock1
   \<and> destinations 0 ''a'' exPart1 = destinations 1 ''a'' exPart1"
proof -
  have h: "blocks exPart1 1 = Some exBlock1 \<and> ''a'' \<in> dom (actions exPart1)
     \<and> 0 \<in> block_states exBlock1 \<and> 1 \<in> block_states exBlock1"
    by (simp add: exPart1_def exBlock1_def)
  from partKS_stable[OF exRun_valid exRun, rule_format, OF h] h exRun_valid exRun
  show ?thesis by simp
qed

text \<open>
  Claim C5. In the partition as constructed and after each installed split, the member
  sets of the blocks are pairwise disjoint, their union is the merged state set, and the
  state index maps every state to a block of the partition that contains it.
\<close>

theorem partition_invariant:
  assumes "reachable left right c0 part c"
  shows "(\<forall>k k' b b'. blocks part k = Some b \<and> blocks part k' = Some b' \<and> k \<noteq> k'
            \<longrightarrow> block_states b \<inter> block_states b' = {})
       \<and> \<Union> (block_states ` ran (blocks part)) = States left \<union> States right
       \<and> (\<forall>s \<in> States left \<union> States right.
            \<exists>b. states part s = Some b \<and> blocks part (block_id b) = Some b \<and> s \<in> block_states b)"
proof -
  note inv = reachable_inv[OF assms]
  note I = part_invD[OF inv]
  show ?thesis using I(8) I(9) part_inv_union[OF inv] by blast
qed

theorem partition_invariant_witness:
  "reachable exLeft exRight 0 exPart1 3
   \<and> block_states exBlock1 \<inter> block_states exBlock2 = {}
   \<and> \<Union> (block_states ` ran (blocks exPart1)) = States exLeft \<union> States exRight
   \<and> states exPart1 2 = Some exBlock2 \<and> blocks exPart1 2 = Some exBlock2 \<and> 2 \<in> block_states exBlock2"
proof -
  have r: "reachable exLeft exRight 0 exPart1 3"
    by (rule reachable.installed[OF reachable.constructed[OF exNew] exValid0 exPass1])
  have b: "blocks exPart1 1 = Some exBlock1 \<and> blocks exPart1 2 = Some exBlock2 \<and> (1::int) \<noteq> 2"
    by (simp add: exPart1_def)
  note pi = partition_invariant[OF r]
  have d: "\<forall>k k' b b'. blocks exPart1 k = Some b \<and> blocks exPart1 k' = Some b' \<and> k \<noteq> k'
            \<longrightarrow> block_states b \<inter> block_states b' = {}"
    using pi by (elim conjE)
  have u: "\<Union> (block_states ` ran (blocks exPart1)) = States exLeft \<union> States exRight"
    using pi by (elim conjE)
  from d[rule_format, OF b] u r show ?thesis
    by (simp add: exPart1_def exBlock2_def)
qed

section \<open>Termination and the empty systems\<close>

lemma split_within:
  assumes "splits part block a s"
  shows "block_states block \<noteq> {}"
  using assms by (auto simp: splits_def)

text \<open>
  Claim C6, as the code has it. On finite inputs \<open>partKS\<close> returns, whatever orders the
  runtime supplies, once they are given for \<open>max 1 n\<close> passes, \<open>n\<close> the number of merged
  states. Every pass that installs a split increases the number of blocks by exactly one,
  a pass that installs none leaves it unchanged, and the number of blocks never exceeds
  \<open>max 1 n\<close>: the number of merged states, except that the partition of two empty systems
  has one block.
\<close>

theorem partKS_terminates:
  assumes "finite (States left)" and "finite (States right)"
    and "valid_run orders left right c0"
    and "max 1 (card (States left \<union> States right)) \<le> length orders"
  shows "(\<exists>res. partKS orders left right c0 = Some res)
       \<and> (\<forall>part c ord part' c' changed.
            reachable left right c0 part c \<and> valid_order part ord
            \<and> scanBlocks ord part c = (part', c', changed)
            \<longrightarrow> card (dom (blocks part')) = card (dom (blocks part)) + (if changed then 1 else 0)
              \<and> card (dom (blocks part')) \<le> max 1 (card (States left \<union> States right)))"
proof -
  have fin: "finite (States left \<union> States right)" using assms(1,2) by simp
  obtain part0 c1 where n: "newPartition left right c0 = (part0, c1)"
    by (cases "newPartition left right c0")
  have vo: "valid_orders orders part0 c1" using assms(3) n by (simp add: valid_run_def)
  have "part0 = fst (newPartition left right c0)" using n by simp
  hence "dom (blocks part0) = {c0}" by (simp add: newPartition_eq)
  hence "card (dom (blocks part0)) = 1" by simp
  hence "max 1 (card (States left \<union> States right)) < card (dom (blocks part0)) + length orders"
    using assms(4) by linarith
  from partKS_loop_terminates[OF newPartition_inv[OF n] vo fin this]
  have t: "\<exists>res. partKS orders left right c0 = Some res" by (simp add: partKS_def n)
  have s: "\<forall>part c ord part' c' changed.
            reachable left right c0 part c \<and> valid_order part ord
            \<and> scanBlocks ord part c = (part', c', changed)
            \<longrightarrow> card (dom (blocks part')) = card (dom (blocks part)) + (if changed then 1 else 0)
              \<and> card (dom (blocks part')) \<le> max 1 (card (States left \<union> States right))"
  proof (intro allI impI, elim conjE)
    fix part c ord part' c' changed
    assume r: "reachable left right c0 part c" and v: "valid_order part ord"
      and sb: "scanBlocks ord part c = (part', c', changed)"
    note pi = pass_inv[OF reachable_inv[OF r] v sb]
    from pi(2) card_blocks_bound[OF pi(1) fin]
    show "card (dom (blocks part')) = card (dom (blocks part)) + (if changed then 1 else 0)
              \<and> card (dom (blocks part')) \<le> max 1 (card (States left \<union> States right))"
      by simp
  qed
  from t s show ?thesis by (rule conjI)
qed

lemma exFuel_valid: "valid_run exFuel exLeft exRight 0"
  by (simp add: valid_run_def exNew exFuel_def exOrders_def exValid0 exValid1 exPass1 exPass2
        del: scanBlocks.simps)

lemma exFuel_run: "partKS exFuel exLeft exRight 0 = Some (exPart1, 7)"
  by (simp add: partKS_def exNew exFuel_def exOrders_def exPass1 exPass2 del: scanBlocks.simps)

theorem partKS_terminates_witness:
  "finite (States exLeft) \<and> finite (States exRight) \<and> valid_run exFuel exLeft exRight 0
   \<and> max 1 (card (States exLeft \<union> States exRight)) \<le> length exFuel
   \<and> partKS exFuel exLeft exRight 0 = Some (exPart1, 7)
   \<and> reachable exLeft exRight 0 exPart0 1 \<and> valid_order exPart0 [(0, exBlock0, [(''a'', 0)])]
   \<and> scanBlocks [(0, exBlock0, [(''a'', 0)])] exPart0 1 = (exPart1, 3, True)
   \<and> card (dom (blocks exPart1)) = card (dom (blocks exPart0)) + 1
   \<and> card (dom (blocks exPart1)) \<le> max 1 (card (States exLeft \<union> States exRight))"
proof -
  have f: "finite (States exLeft)" "finite (States exRight)"
    by (simp_all add: exLeft_eq exRight_eq)
  have "States exLeft \<union> States exRight = {0, 1, 2, 3}"
    by (auto simp: exLeft_eq exRight_eq)
  hence m: "max 1 (card (States exLeft \<union> States exRight)) \<le> length exFuel"
    by (simp add: exFuel_def exOrders_def)
  have r: "reachable exLeft exRight 0 exPart0 1"
    by (rule reachable.constructed[OF exNew])
  note t = partKS_terminates[OF f exFuel_valid m]
  have s: "\<forall>part c ord part' c' changed.
            reachable exLeft exRight 0 part c \<and> valid_order part ord
            \<and> scanBlocks ord part c = (part', c', changed)
            \<longrightarrow> card (dom (blocks part')) = card (dom (blocks part)) + (if changed then 1 else 0)
              \<and> card (dom (blocks part')) \<le> max 1 (card (States exLeft \<union> States exRight))"
    using t by (elim conjE)
  have h: "reachable exLeft exRight 0 exPart0 1 \<and> valid_order exPart0 [(0, exBlock0, [(''a'', 0)])]
            \<and> scanBlocks [(0, exBlock0, [(''a'', 0)])] exPart0 1 = (exPart1, 3, True)"
    using r exValid0 exPass1 by simp
  from s[rule_format, OF h] h f exFuel_valid m exFuel_run show ?thesis by simp
qed

text \<open>
  The bound as stated, by the number of merged states alone, fails for two systems without
  states: the constructed partition has one block and there are no states.
\<close>

theorem block_count_counterexample:
  "\<not> card (dom (blocks (fst (newPartition exEmpty exEmpty 0))))
       \<le> card (States exEmpty \<union> States exEmpty)"
  by (simp add: newPartition_eq exEmpty_def)

lemma States_bisimilar_mixed: "States_bisimilar (block_states b) = mixed b"
  by (simp add: States_bisimilar_def mixed_def isLeft_even)

lemma bisimilar_loop_None:
  "bisimilar_loop bs bisim label = None \<longleftrightarrow> (\<exists>b \<in> set bs. \<not> mixed b)"
  by (induction bs arbitrary: bisim label) (auto simp: States_bisimilar_mixed)

lemma exEmptyNew: "newPartition exEmpty exEmpty 0 = (exEmptyPart, 1)"
  by (auto simp: newPartition_eq exEmpty_def exEmptyPart_def exEmptyBlock_def fun_eq_iff)

text \<open>
  Claim C10. When both systems have no states, the constructed partition consists of one
  empty block, no pass installs a split, \<open>partKS\<close> returns the constructed partition, and
  \<open>Partition.bisimilar\<close> returns nil: two empty systems are reported as not bisimilar.
\<close>

theorem empty_systems_not_bisimilar:
  assumes "States left = {}" and "States right = {}"
  shows "blocks (fst (newPartition left right c0)) = [c0 \<mapsto> \<lparr>block_id = c0, block_states = {}\<rparr>]
       \<and> (\<forall>ord part' c' changed.
            valid_order (fst (newPartition left right c0)) ord
            \<and> scanBlocks ord (fst (newPartition left right c0)) (c0 + 1) = (part', c', changed)
            \<longrightarrow> \<not> changed \<and> part' = fst (newPartition left right c0))
       \<and> (\<forall>orders. orders \<noteq> [] \<and> valid_run orders left right c0
            \<longrightarrow> (\<exists>c. partKS orders left right c0 = Some (fst (newPartition left right c0), c)))
       \<and> (\<forall>bs. valid_enum (fst (newPartition left right c0)) bs \<longrightarrow> bisimilar bs = None)"
proof -
  define part0 where "part0 = fst (newPartition left right c0)"
  define b0 where "b0 = \<lparr>block_id = c0, block_states = {}\<rparr>"
  have n: "newPartition left right c0 = (part0, c0 + 1)"
    by (simp add: part0_def newPartition_eq)
  have bl: "blocks part0 = [c0 \<mapsto> b0]"
    by (simp add: part0_def b0_def newPartition_eq assms)
  note inv = newPartition_inv[OF n]
  have pass: "\<not> changed \<and> part' = part0"
    if v: "valid_order part0 ord" and sb: "scanBlocks ord part0 (c0 + 1) = (part', c', changed)"
    for ord part' c' changed
  proof (cases changed)
    case True
    with sb have "scanBlocks ord part0 (c0 + 1) = (part', c', True)" by simp
    from pass_changed[OF inv v this] obtain k block a s where
      "blocks part0 k = Some block" "splits part0 block a s" by blast
    hence "block = b0" "block_states block \<noteq> {}"
      by (auto simp: bl splits_def split: if_splits)
    thus ?thesis by (simp add: b0_def)
  next
    case False
    with sb have "scanBlocks ord part0 (c0 + 1) = (part', c', False)" by simp
    from pass_unchanged(1)[OF inv v this] False show ?thesis by simp
  qed
  have run: "\<exists>c. partKS orders left right c0 = Some (part0, c)"
    if ne: "orders \<noteq> []" and v: "valid_run orders left right c0" for orders
  proof -
    from ne obtain ord rest where o: "orders = ord # rest" by (cases orders) auto
    obtain part' c' changed where sb: "scanBlocks ord part0 (c0 + 1) = (part', c', changed)"
      by (cases "scanBlocks ord part0 (c0 + 1)")
    from v have "valid_order part0 ord" by (simp add: valid_run_def n o)
    from pass[OF this sb] sb show ?thesis by (simp add: partKS_def n o)
  qed
  have verdict: "bisimilar bs = None" if e: "valid_enum part0 bs" for bs
  proof -
    from e have "set bs = {b0}" by (simp add: valid_enum_def bl)
    hence "b0 \<in> set bs" by simp
    moreover have "\<not> mixed b0" by (simp add: mixed_def b0_def)
    ultimately show ?thesis unfolding bisimilar_def bisimilar_loop_None by blast
  qed
  show ?thesis
    unfolding part0_def[symmetric] b0_def[symmetric]
    using bl pass run verdict by blast
qed

theorem empty_systems_not_bisimilar_witness:
  "States exEmpty = {}
   \<and> blocks (fst (newPartition exEmpty exEmpty 0)) = [0 \<mapsto> \<lparr>block_id = 0, block_states = {}\<rparr>]
   \<and> valid_order exEmptyPart [(0, exEmptyBlock, [])]
   \<and> scanBlocks [(0, exEmptyBlock, [])] exEmptyPart 1 = (exEmptyPart, 1, False)
   \<and> valid_run [[(0, exEmptyBlock, [])]] exEmpty exEmpty 0
   \<and> (\<exists>c. partKS [[(0, exEmptyBlock, [])]] exEmpty exEmpty 0 = Some (exEmptyPart, c))
   \<and> valid_enum exEmptyPart [exEmptyBlock]
   \<and> bisimilar [exEmptyBlock] = None"
proof -
  have e: "States exEmpty = {}" by (simp add: exEmpty_def)
  have vo: "valid_order exEmptyPart [(0, exEmptyBlock, [])]"
    by (simp add: valid_order_def valid_actions_def exEmptyPart_def)
  have sb: "scanBlocks [(0, exEmptyBlock, [])] exEmptyPart 1 = (exEmptyPart, 1, False)"
    by simp
  have vr: "valid_run [[(0, exEmptyBlock, [])]] exEmpty exEmpty 0"
    by (simp add: valid_run_def exEmptyNew vo)
  have ve: "valid_enum exEmptyPart [exEmptyBlock]"
    by (simp add: valid_enum_def exEmptyPart_def)
  note t = empty_systems_not_bisimilar[OF e e, of 0, unfolded exEmptyNew fst_conv]
  have t1: "blocks exEmptyPart = [0 \<mapsto> \<lparr>block_id = 0, block_states = {}\<rparr>]"
    using t by (elim conjE)
  have t3: "\<forall>orders. orders \<noteq> [] \<and> valid_run orders exEmpty exEmpty 0
            \<longrightarrow> (\<exists>c. partKS orders exEmpty exEmpty 0 = Some (exEmptyPart, c))"
    using t by (elim conjE)
  have t4: "\<forall>bs. valid_enum exEmptyPart bs \<longrightarrow> bisimilar bs = None"
    using t by (elim conjE)
  have r: "\<exists>c. partKS [[(0, exEmptyBlock, [])]] exEmpty exEmpty 0 = Some (exEmptyPart, c)"
    using t3[rule_format, of "[[(0, exEmptyBlock, [])]]"] vr by simp
  have b: "bisimilar [exEmptyBlock] = None" using t4[rule_format, OF ve] .
  show ?thesis using e t1 vo sb vr r ve b by (simp add: exEmptyNew)
qed

section \<open>The verdict\<close>

lemma bisimilar_loop_Some:
  assumes "bisimilar_loop bs bisim label = Some m"
    and "\<forall>i<length bs. \<forall>j<length bs. i \<noteq> j \<longrightarrow> block_states (bs ! i) \<inter> block_states (bs ! j) = {}"
  shows "(\<forall>i<length bs. \<forall>s \<in> block_states (bs ! i). m s = Some (label + int i))
       \<and> (\<forall>s. s \<notin> \<Union> (block_states ` set bs) \<longrightarrow> m s = bisim s)"
  using assms
proof (induction bs arbitrary: bisim label)
  case Nil
  then show ?case by simp
next
  case (Cons b bs)
  let ?bisim' = "\<lambda>state. if state \<in> block_states b then Some label else bisim state"
  from Cons.prems(1) have rec: "bisimilar_loop bs ?bisim' (label + 1) = Some m"
    by (simp split: if_splits)
  have dj: "\<forall>i<length bs. \<forall>j<length bs. i \<noteq> j \<longrightarrow> block_states (bs ! i) \<inter> block_states (bs ! j) = {}"
  proof (intro allI impI)
    fix i j assume "i < length bs" "j < length bs" "i \<noteq> j"
    with Cons.prems(2)[rule_format, of "Suc i" "Suc j"]
    show "block_states (bs ! i) \<inter> block_states (bs ! j) = {}" by simp
  qed
  have dj0: "block_states b \<inter> block_states b' = {}" if "b' \<in> set bs" for b'
  proof -
    from that obtain j where "j < length bs" "bs ! j = b'" by (auto simp: in_set_conv_nth)
    with Cons.prems(2)[rule_format, of 0 "Suc j"] show ?thesis by simp
  qed
  from Cons.IH[OF rec dj]
  have ih1: "\<forall>i<length bs. \<forall>s \<in> block_states (bs ! i). m s = Some (label + 1 + int i)"
    and ih2: "\<forall>s. s \<notin> \<Union> (block_states ` set bs) \<longrightarrow> m s = ?bisim' s"
    by blast+
  have g1: "\<forall>i<length (b # bs). \<forall>s \<in> block_states ((b # bs) ! i). m s = Some (label + int i)"
  proof (intro allI impI ballI)
    fix i s assume i: "i < length (b # bs)" and s: "s \<in> block_states ((b # bs) ! i)"
    show "m s = Some (label + int i)"
    proof (cases i)
      case 0
      with s have sb: "s \<in> block_states b" by simp
      with dj0 have "s \<notin> \<Union> (block_states ` set bs)" by blast
      with ih2 sb 0 show ?thesis by simp
    next
      case (Suc i')
      with i s ih1 show ?thesis by simp
    qed
  qed
  have g2: "\<forall>s. s \<notin> \<Union> (block_states ` set (b # bs)) \<longrightarrow> m s = bisim s"
    using ih2 by simp
  from g1 g2 show ?case by (rule conjI)
qed

lemma valid_enum_disjoint:
  assumes inv: "part_inv left right c0 part c" and ve: "valid_enum part bs"
  shows "\<forall>i<length bs. \<forall>j<length bs. i \<noteq> j \<longrightarrow> block_states (bs ! i) \<inter> block_states (bs ! j) = {}"
proof (intro allI impI)
  fix i j assume h: "i < length bs" "j < length bs" "i \<noteq> j"
  note I = part_invD[OF inv]
  from ve have d: "distinct bs" and r: "set bs = ran (blocks part)" by (simp_all add: valid_enum_def)
  from h d have ne: "bs ! i \<noteq> bs ! j" by (simp add: nth_eq_iff_index_eq)
  from h have "bs ! i \<in> set bs" "bs ! j \<in> set bs" by simp_all
  with r have "bs ! i \<in> ran (blocks part)" "bs ! j \<in> ran (blocks part)" by simp_all
  then obtain k k' where k: "blocks part k = Some (bs ! i)" "blocks part k' = Some (bs ! j)"
    unfolding ran_def by blast
  with ne have "k \<noteq> k'" by auto
  from I(8)[OF k this] show "block_states (bs ! i) \<inter> block_states (bs ! j) = {}" .
qed

lemma bisimilar_relation:
  assumes inv: "part_inv left right c0 part c" and ve: "valid_enum part bs"
    and m: "bisimilar bs = Some m"
  shows "dom m = States left \<union> States right"
    and "\<forall>b \<in> ran (blocks part). \<exists>l. \<forall>s. (m s = Some l) = (s \<in> block_states b)"
proof -
  from ve have r: "set bs = ran (blocks part)" by (simp add: valid_enum_def)
  note dj = valid_enum_disjoint[OF inv ve]
  from bisimilar_loop_Some[OF m[unfolded bisimilar_def] dj]
  have a: "\<forall>i<length bs. \<forall>s \<in> block_states (bs ! i). m s = Some (int i)"
    and b: "\<forall>s. s \<notin> \<Union> (block_states ` set bs) \<longrightarrow> m s = None"
    by simp_all
  have b': "s \<in> \<Union> (block_states ` set bs)" if "m s \<noteq> None" for s
  proof (rule ccontr)
    assume n: "s \<notin> \<Union> (block_states ` set bs)"
    from b[rule_format, OF n] that show False by simp
  qed
  have un: "\<Union> (block_states ` set bs) = States left \<union> States right"
    using part_inv_union[OF inv] r by simp
  have inblock: "\<exists>j<length bs. s \<in> block_states (bs ! j)" if "s \<in> \<Union> (block_states ` set bs)" for s
  proof -
    from that obtain x where x: "x \<in> set bs" "s \<in> block_states x" by blast
    from x(1) obtain j where "j < length bs" "bs ! j = x" unfolding in_set_conv_nth by blast
    with x(2) show ?thesis by blast
  qed
  show "dom m = States left \<union> States right"
  proof
    show "dom m \<subseteq> States left \<union> States right"
    proof
      fix s assume "s \<in> dom m"
      hence "m s \<noteq> None" by auto
      hence "s \<in> \<Union> (block_states ` set bs)" by (rule b')
      thus "s \<in> States left \<union> States right" using un by simp
    qed
    show "States left \<union> States right \<subseteq> dom m"
    proof
      fix s assume "s \<in> States left \<union> States right"
      hence "s \<in> \<Union> (block_states ` set bs)" using un by simp
      from inblock[OF this] a show "s \<in> dom m" by auto
    qed
  qed
  show "\<forall>b \<in> ran (blocks part). \<exists>l. \<forall>s. (m s = Some l) = (s \<in> block_states b)"
  proof
    fix bl assume "bl \<in> ran (blocks part)"
    with r have "bl \<in> set bs" by simp
    then obtain i where i: "i < length bs" "bs ! i = bl" unfolding in_set_conv_nth by blast
    have "\<forall>s. (m s = Some (int i)) = (s \<in> block_states bl)"
    proof
      fix s show "(m s = Some (int i)) = (s \<in> block_states bl)"
      proof
        assume ms: "m s = Some (int i)"
        hence "m s \<noteq> None" by simp
        hence "s \<in> \<Union> (block_states ` set bs)" by (rule b')
        from inblock[OF this] obtain j where j: "j < length bs" "s \<in> block_states (bs ! j)" by blast
        with a have "m s = Some (int j)" by blast
        with ms have "i = j" by simp
        with j i show "s \<in> block_states bl" by simp
      next
        assume "s \<in> block_states bl"
        with a i show "m s = Some (int i)" by blast
      qed
    qed
    thus "\<exists>l. \<forall>s. (m s = Some l) = (s \<in> block_states bl)" by blast
  qed
qed

text \<open>
  Claim C2. For the partition that \<open>partKS\<close> returns, \<open>Partition.bisimilar\<close> returns a
  relation exactly when every block is mixed, and nil exactly when some block is not. A
  relation it returns is defined on exactly the states of the two systems, and for every
  block there is a class label that the relation gives to the members of that block and to
  no other state.
\<close>

theorem bisimilar_verdict:
  assumes "valid_run orders left right c0" and "partKS orders left right c0 = Some (part, c)"
    and "valid_enum part bs"
  shows "(bisimilar bs \<noteq> None \<longleftrightarrow> (\<forall>b \<in> ran (blocks part). mixed b))
       \<and> (bisimilar bs = None \<longleftrightarrow> (\<exists>b \<in> ran (blocks part). \<not> mixed b))
       \<and> (\<forall>m. bisimilar bs = Some m \<longrightarrow>
             dom m = States left \<union> States right
             \<and> (\<forall>b \<in> ran (blocks part). \<exists>l. \<forall>s. (m s = Some l) = (s \<in> block_states b)))"
proof -
  note inv = partKS_sound(1)[OF assms(1,2)]
  from assms(3) have r: "set bs = ran (blocks part)" by (simp add: valid_enum_def)
  have n: "bisimilar bs = None \<longleftrightarrow> (\<exists>b \<in> ran (blocks part). \<not> mixed b)"
    by (simp add: bisimilar_def bisimilar_loop_None r)
  hence y: "bisimilar bs \<noteq> None \<longleftrightarrow> (\<forall>b \<in> ran (blocks part). mixed b)" by simp
  have rel: "\<forall>m. bisimilar bs = Some m \<longrightarrow>
             dom m = States left \<union> States right
             \<and> (\<forall>b \<in> ran (blocks part). \<exists>l. \<forall>s. (m s = Some l) = (s \<in> block_states b))"
    using bisimilar_relation[OF inv assms(3)] by blast
  from y n rel show ?thesis by (intro conjI)
qed

lemma exPart1_ran: "ran (blocks exPart1) = {exBlock1, exBlock2}"
  by (auto simp: exPart1_def)

lemma exEnum: "valid_enum exPart1 [exBlock1, exBlock2]"
  by (simp add: valid_enum_def exPart1_ran) (simp add: exBlock1_def exBlock2_def)

lemma exMixed: "mixed exBlock1" "mixed exBlock2"
  by (simp_all add: mixed_def exBlock1_def exBlock2_def)

lemma exBisim:
  "bisimilar [exBlock1, exBlock2] =
     Some (\<lambda>s. if s \<in> {2, 3} then Some 1 else if s \<in> {0, 1} then Some 0 else None)"
  by (simp add: bisimilar_def States_bisimilar_mixed exMixed)
     (auto simp: exBlock1_def exBlock2_def fun_eq_iff)

theorem bisimilar_verdict_witness:
  "valid_run exOrders exLeft exRight 0 \<and> partKS exOrders exLeft exRight 0 = Some (exPart1, 7)
   \<and> valid_enum exPart1 [exBlock1, exBlock2]
   \<and> bisimilar [exBlock1, exBlock2] \<noteq> None
   \<and> mixed exBlock1 \<and> mixed exBlock2
   \<and> dom (\<lambda>s::int. if s \<in> {2, 3} then Some (1::int) else if s \<in> {0, 1} then Some 0 else None)
       = States exLeft \<union> States exRight"
proof -
  note t = bisimilar_verdict[OF exRun_valid exRun exEnum]
  have t1: "bisimilar [exBlock1, exBlock2] \<noteq> None \<longleftrightarrow> (\<forall>b \<in> ran (blocks exPart1). mixed b)"
    using t by (elim conjE)
  have t3: "\<forall>m. bisimilar [exBlock1, exBlock2] = Some m \<longrightarrow>
             dom m = States exLeft \<union> States exRight
             \<and> (\<forall>b \<in> ran (blocks exPart1). \<exists>l. \<forall>s. (m s = Some l) = (s \<in> block_states b))"
    using t by (elim conjE)
  have s: "bisimilar [exBlock1, exBlock2] \<noteq> None" by (simp add: exBisim)
  have d: "dom (\<lambda>s::int. if s \<in> {2, 3} then Some (1::int) else if s \<in> {0, 1} then Some 0 else None)
       = States exLeft \<union> States exRight"
    using t3[rule_format, OF exBisim] by (elim conjE)
  have "\<forall>b \<in> ran (blocks exPart1). mixed b" using t1 s by simp
  hence a: "mixed exBlock1" "mixed exBlock2" by (simp_all add: exPart1_ran)
  from d a s exRun_valid exRun exEnum show ?thesis by (intro conjI)
qed

section \<open>Independence of the scan order\<close>

lemma set_destIds: "set (destIds s a p) = cls p ` succs p a s"
  by (auto simp: destIds_def cls_def succs_def)

lemma destinations_eq_cls:
  "destinations s a p = destinations t a p \<longleftrightarrow> cls p ` succs p a s = cls p ` succs p a t"
  by (simp add: destinations_eq_iff set_destIds)

lemma succs_actions: "actions p = actions q \<Longrightarrow> succs p a s = succs q a s"
  by (simp add: succs_def actionTrans_def)

lemma cls_outside:
  assumes "part_inv left right c0 part c" and "x \<notin> States left \<union> States right"
  shows "cls part x = 0"
  using part_invD(10)[OF assms] by (simp add: cls_def stateBlock_def zeroBlock_def)

lemma cls_member:
  assumes inv: "part_inv left right c0 part c" and x: "x \<in> States left \<union> States right"
    and b: "blocks part k = Some b"
  shows "x \<in> block_states b \<longleftrightarrow> cls part x = k"
proof -
  note I = part_invD[OF inv]
  from I(9)[OF x] obtain bx where bx: "states part x = Some bx" "blocks part (block_id bx) = Some bx"
    "x \<in> block_states bx" by blast
  have c: "cls part x = block_id bx" using bx(1) by (simp add: cls_def stateBlock_def)
  show ?thesis
  proof
    assume xb: "x \<in> block_states b"
    show "cls part x = k"
    proof (rule ccontr)
      assume "cls part x \<noteq> k"
      hence "block_id bx \<noteq> k" using c by simp
      from I(8)[OF bx(2) b this] bx(3) xb show False by blast
    qed
  next
    assume "cls part x = k"
    with c bx(2) b have "bx = b" by simp
    with bx(3) show "x \<in> block_states b" by simp
  qed
qed

lemma cls_inside:
  assumes inv: "part_inv left right c0 part c" and x: "x \<in> States left \<union> States right"
  shows "\<exists>b. blocks part (cls part x) = Some b \<and> x \<in> block_states b"
proof -
  from part_invD(9)[OF inv x] obtain bx where bx: "states part x = Some bx"
    "blocks part (block_id bx) = Some bx" "x \<in> block_states bx" by blast
  have "cls part x = block_id bx" using bx(1) by (simp add: cls_def stateBlock_def)
  with bx show ?thesis by auto
qed

lemma key_c0_initial:
  assumes inv: "part_inv left right c0 part c" and b: "blocks part c0 = Some b"
  shows "part = fst (newPartition left right c0)"
proof -
  from part_invD(11)[OF inv] show ?thesis
  proof
    assume "\<forall>k b. blocks part k = Some b \<longrightarrow> c0 < k \<and> block_states b \<noteq> {}"
    with b have "c0 < c0" by blast
    thus ?thesis by simp
  qed
qed

lemma cls_split_result:
  "cls (split_result part block a s c) x =
     (if x \<in> block_states block
      then (if destinations x a part = destinations s a part then c else c + 1)
      else cls part x)"
  by (simp add: cls_def stateBlock_def split_result_simps)

lemma refines_initial:
  assumes inv: "part_inv left right c0 q cq" and c0: "0 \<le> c0"
  shows "refines q (fst (newPartition left right c0))"
  unfolding refines_def
proof (intro allI impI)
  fix x y assume e: "cls q x = cls q y"
  let ?S = "States left \<union> States right"
  let ?p0 = "fst (newPartition left right c0)"
  have c: "cls ?p0 z = (if z \<in> ?S then c0 else 0)" for z
    by (simp add: cls_def stateBlock_def zeroBlock_def newPartition_eq)
  have zero: "c0 = 0" if "u \<in> ?S" "v \<notin> ?S" "cls q u = cls q v" for u v
  proof -
    from cls_inside[OF inv that(1)] obtain b where "blocks q (cls q u) = Some b" by blast
    from part_invD(5)[OF inv this] have "c0 \<le> cls q u" .
    moreover have "cls q v = 0" by (rule cls_outside[OF inv that(2)])
    ultimately show ?thesis using that(3) c0 by simp
  qed
  show "cls ?p0 x = cls ?p0 y"
  proof (cases "x \<in> ?S")
    case True
    show ?thesis
    proof (cases "y \<in> ?S")
      case True with \<open>x \<in> ?S\<close> show ?thesis by (simp add: c)
    next
      case False
      have "cls ?p0 x = c0" "cls ?p0 y = 0" using True False by (simp_all add: c)
      with zero[OF True False e] show ?thesis by simp
    qed
  next
    case False
    show ?thesis
    proof (cases "y \<in> ?S")
      case True
      have "cls ?p0 y = c0" "cls ?p0 x = 0" using True False by (simp_all add: c)
      with zero[OF True False e[symmetric]] show ?thesis by simp
    next
      case False with \<open>x \<notin> ?S\<close> show ?thesis by (simp add: c)
    qed
  qed
qed

lemma stable_same_block:
  assumes inv: "part_inv left right c0 q cq" and st: "stable q"
    and x: "x \<in> States left \<union> States right" and y: "y \<in> States left \<union> States right"
    and e: "cls q x = cls q y" and a: "a \<in> dom (actions q)"
  shows "cls q ` succs q a x = cls q ` succs q a y"
proof -
  from cls_inside[OF inv x] obtain b where b: "blocks q (cls q x) = Some b" "x \<in> block_states b"
    by blast
  from cls_member[OF inv y b(1)] e have "y \<in> block_states b" by simp
  with st b a have "destinations x a q = destinations y a q"
    unfolding stable_def by blast
  thus ?thesis by (simp add: destinations_eq_cls)
qed

lemma refines_image:
  assumes r: "refines q part" and e: "cls q ` A = cls q ` B"
  shows "cls part ` A = cls part ` B"
proof -
  have half: "cls part ` U \<subseteq> cls part ` V" if "cls q ` U \<subseteq> cls q ` V" for U V
  proof
    fix v assume "v \<in> cls part ` U"
    then obtain d where d: "d \<in> U" "v = cls part d" by blast
    hence "cls q d \<in> cls q ` V" using that by blast
    then obtain d' where d': "d' \<in> V" "cls q d = cls q d'" by blast
    with r have "cls part d = cls part d'" unfolding refines_def by blast
    with d d' show "v \<in> cls part ` V" by blast
  qed
  from e have "cls q ` A \<subseteq> cls q ` B" "cls q ` B \<subseteq> cls q ` A" by simp_all
  from half[OF this(1)] half[OF this(2)] show ?thesis by (rule equalityI)
qed

lemma refines_split:
  assumes inv: "part_inv left right c0 part c" and c0: "0 \<le> c0"
    and invq: "part_inv left right c0 q cq" and stq: "stable q"
    and r: "refines q part"
    and blk: "blocks part k = Some block" and a: "a \<in> dom (actions part)"
    and rep: "rep_ok block s" and spl: "splits part block a s"
  shows "refines q (split_result part block a s c'')"
  unfolding refines_def
proof (intro allI impI)
  let ?S = "States left \<union> States right"
  let ?p0 = "fst (newPartition left right c0)"
  let ?p' = "split_result part block a s c''"
  note I = part_invD[OF inv]
  note Q = part_invD[OF invq]
  have acts: "actions q = actions part" using I(1) Q(1) by simp
  have subS: "block_states block \<subseteq> ?S" using I(7)[OF blk] .
  from spl obtain t where t: "t \<in> block_states block"
    "destinations t a part \<noteq> destinations s a part" by (auto simp: splits_def)
  from t(1) have "block_states block \<noteq> {}" by blast
  hence sin: "s \<in> block_states block" using rep by (simp add: rep_ok_def)
  have inB: "v \<in> block_states block"
    if u: "u \<in> block_states block" and e: "cls q u = cls q v" for u v
  proof -
    from u subS have uS: "u \<in> ?S" by blast
    from cls_member[OF inv uS blk] u have cu: "cls part u = k" by simp
    from r e have "cls part u = cls part v" unfolding refines_def by blast
    with cu have cv: "cls part v = k" by simp
    show ?thesis
    proof (cases "v \<in> ?S")
      case True
      from cls_member[OF inv True blk] cv show ?thesis by simp
    next
      case False
      have "cls part v = 0" by (rule cls_outside[OF inv False])
      with cv have k0: "k = 0" by simp
      with I(5)[OF blk] c0 have kc: "k = c0" by simp
      with blk have "blocks part c0 = Some block" by simp
      from key_c0_initial[OF inv this] have p: "part = ?p0" .
      have "cls q v = 0" by (rule cls_outside[OF invq False])
      with e k0 kc have "cls q u = c0" by simp
      with cls_inside[OF invq uS] obtain b where "blocks q c0 = Some b" by auto
      from key_c0_initial[OF invq this] have "q = ?p0" .
      with p stq have "stable part" by simp
      with blk a t(1) sin have "destinations t a part = destinations s a part"
        unfolding stable_def by blast
      with t(2) show ?thesis by simp
    qed
  qed
  fix x y assume e: "cls q x = cls q y"
  from r e have ep: "cls part x = cls part y" unfolding refines_def by blast
  show "cls ?p' x = cls ?p' y"
  proof (cases "x \<in> block_states block")
    case True
    from inB[OF True e] have yB: "y \<in> block_states block" .
    from True yB subS have xS: "x \<in> ?S" and yS: "y \<in> ?S" by blast+
    from a acts have aq: "a \<in> dom (actions q)" by simp
    from stable_same_block[OF invq stq xS yS e aq]
    have "cls q ` succs q a x = cls q ` succs q a y" .
    from refines_image[OF r this]
    have "cls part ` succs part a x = cls part ` succs part a y"
      by (simp add: succs_actions[OF acts])
    hence "destinations x a part = destinations y a part" by (simp add: destinations_eq_cls)
    with True yB show ?thesis by (simp add: cls_split_result)
  next
    case False
    have "y \<notin> block_states block"
    proof
      assume "y \<in> block_states block"
      from inB[OF this e[symmetric]] False show False by simp
    qed
    with False ep show ?thesis by (simp add: cls_split_result)
  qed
qed

lemma partKS_loop_refines:
  assumes "part_inv left right c0 part c" and "valid_orders orders part c"
    and "partKS_loop orders part c = Some (p, cf)"
    and "0 \<le> c0" and "part_inv left right c0 q cq" and "stable q"
    and "refines q part"
  shows "refines q p"
  using assms(1,2,3,7)
proof (induction orders arbitrary: part c)
  case Nil
  then show ?case by simp
next
  case (Cons ord rest)
  obtain part' c' changed where sb: "scanBlocks ord part c = (part', c', changed)"
    by (cases "scanBlocks ord part c")
  from Cons.prems(2) have vo: "valid_order part ord" by simp
  note pi = pass_inv[OF Cons.prems(1) vo sb]
  show ?case
  proof (cases changed)
    case True
    with Cons.prems(2,3) sb have v: "valid_orders rest part' c'"
      and l: "partKS_loop rest part' c' = Some (p, cf)" by simp_all
    from sb True have sb': "scanBlocks ord part c = (part', c', True)" by simp
    from pass_changed[OF Cons.prems(1) vo sb']
    obtain k block a s c'' where h: "blocks part k = Some block" "a \<in> dom (actions part)"
      "rep_ok block s" "splits part block a s" "part' = split_result part block a s c''"
      by blast
    from refines_split[OF Cons.prems(1) assms(4,5,6) Cons.prems(4) h(1,2,3,4), of c''] h(5)
    have "refines q part'" by simp
    from Cons.IH[OF pi(1) v l this] show ?thesis .
  next
    case False
    from sb False have sb': "scanBlocks ord part c = (part', c', False)" by simp
    from Cons.prems(3) sb False have "p = part'" by simp
    with pass_unchanged(1)[OF Cons.prems(1) vo sb'] Cons.prems(4) show ?thesis by simp
  qed
qed

lemma partKS_refines:
  assumes "0 \<le> c0"
    and "valid_run orders1 left right c0" and "partKS orders1 left right c0 = Some (p1, c1)"
    and "valid_run orders2 left right c0" and "partKS orders2 left right c0 = Some (p2, c2)"
  shows "refines p2 p1"
proof -
  obtain part0 c where n: "newPartition left right c0 = (part0, c)"
    by (cases "newPartition left right c0")
  hence p0: "part0 = fst (newPartition left right c0)" by simp
  from assms(2,3) n have v: "valid_orders orders1 part0 c"
    and l: "partKS_loop orders1 part0 c = Some (p1, c1)"
    by (simp_all add: valid_run_def partKS_def)
  note s2 = partKS_sound[OF assms(4,5)]
  from refines_initial[OF s2(1) assms(1)] have r0: "refines p2 part0" by (simp add: p0)
  from partKS_loop_refines[OF newPartition_inv[OF n] v l assms(1) s2 r0] show ?thesis .
qed

lemma groups_subset:
  assumes i1: "part_inv left right c0 p1 c1" and i2: "part_inv left right c0 p2 c2"
    and r12: "refines p1 p2" and r21: "refines p2 p1"
  shows "block_states ` ran (blocks p1) \<subseteq> block_states ` ran (blocks p2)"
proof
  let ?S = "States left \<union> States right"
  note I = part_invD[OF i1]
  note J = part_invD[OF i2]
  fix B assume "B \<in> block_states ` ran (blocks p1)"
  then obtain k b where b: "blocks p1 k = Some b" "B = block_states b"
    unfolding ran_def by blast
  show "B \<in> block_states ` ran (blocks p2)"
  proof (cases "B = {}")
    case True
    from I(11) have "p1 = fst (newPartition left right c0)"
    proof
      assume "\<forall>k b. blocks p1 k = Some b \<longrightarrow> c0 < k \<and> block_states b \<noteq> {}"
      with b True show ?thesis by blast
    qed
    hence "blocks p1 = [c0 \<mapsto> \<lparr>block_id = c0, block_states = ?S\<rparr>]"
      by (simp add: newPartition_eq)
    with b(1) have "b = \<lparr>block_id = c0, block_states = ?S\<rparr>" by (simp split: if_splits)
    hence "block_states b = ?S" by simp
    with b(2) have "B = ?S" by simp
    with True have S: "?S = {}" by simp
    from J(3) obtain k2 b2 where b2: "blocks p2 k2 = Some b2" by blast
    from J(7)[OF b2] S have "block_states b2 = {}" by simp
    moreover from b2 have "b2 \<in> ran (blocks p2)" unfolding ran_def by blast
    ultimately show ?thesis using True by force
  next
    case False
    then obtain x where x: "x \<in> block_states b" using b(2) by blast
    from I(7)[OF b(1)] have sub: "block_states b \<subseteq> ?S" .
    from x sub have xS: "x \<in> ?S" by blast
    from cls_member[OF i1 xS b(1)] x have cx: "cls p1 x = k" by simp
    from cls_inside[OF i2 xS] obtain b2 where b2: "blocks p2 (cls p2 x) = Some b2"
      "x \<in> block_states b2" by blast
    from J(7)[OF b2(1)] have sub2: "block_states b2 \<subseteq> ?S" .
    have "block_states b = block_states b2"
    proof (rule equalityI; rule subsetI)
      fix y assume y: "y \<in> block_states b"
      with sub have yS: "y \<in> ?S" by blast
      from cls_member[OF i1 yS b(1)] y cx have "cls p1 y = cls p1 x" by simp
      with r12 have "cls p2 y = cls p2 x" unfolding refines_def by blast
      with cls_member[OF i2 yS b2(1)] show "y \<in> block_states b2" by simp
    next
      fix y assume y: "y \<in> block_states b2"
      with sub2 have yS: "y \<in> ?S" by blast
      from cls_member[OF i2 yS b2(1)] y have "cls p2 y = cls p2 x" by simp
      with r21 have "cls p1 y = cls p1 x" unfolding refines_def by blast
      with cls_member[OF i1 yS b(1)] cx show "y \<in> block_states b" by simp
    qed
    moreover from b2(1) have "b2 \<in> ran (blocks p2)" unfolding ran_def by blast
    ultimately show ?thesis using b(2) by force
  qed
qed

lemma mixed_cong: "block_states b = block_states b' \<Longrightarrow> mixed b = mixed b'"
  by (simp add: mixed_def)

lemma pure_block_groups:
  assumes "block_states ` ran (blocks p1) \<subseteq> block_states ` ran (blocks p2)"
    and "\<exists>b \<in> ran (blocks p1). \<not> mixed b"
  shows "\<exists>b \<in> ran (blocks p2). \<not> mixed b"
proof -
  from assms(2) obtain b where b: "b \<in> ran (blocks p1)" "\<not> mixed b" by blast
  hence "block_states b \<in> block_states ` ran (blocks p2)" using assms(1) by blast
  then obtain b' where b': "b' \<in> ran (blocks p2)" "block_states b = block_states b'" by blast
  with b(2) mixed_cong[OF b'(2)] show ?thesis by blast
qed

lemma same_block_groups:
  assumes "block_states ` ran (blocks p1) \<subseteq> block_states ` ran (blocks p2)"
    and "\<exists>b \<in> ran (blocks p1). s \<in> block_states b \<and> t \<in> block_states b"
  shows "\<exists>b \<in> ran (blocks p2). s \<in> block_states b \<and> t \<in> block_states b"
proof -
  from assms(2) obtain b where b: "b \<in> ran (blocks p1)" "s \<in> block_states b" "t \<in> block_states b"
    by blast
  hence "block_states b \<in> block_states ` ran (blocks p2)" using assms(1) by blast
  then obtain b' where b': "b' \<in> ran (blocks p2)" "block_states b = block_states b'" by blast
  with b(2,3) show ?thesis by auto
qed

text \<open>
  Claim C9. Two runs of \<open>partKS\<close> on the same pair of systems, with any scan orders and
  representatives the runtime can supply, return partitions with the same member sets:
  two states share a block after one run exactly when they do after the other, and
  \<open>Partition.bisimilar\<close> returns nil after one run exactly when it does after the other,
  however the blocks are enumerated. The counter at the call is not negative; in the
  program it is 0.
\<close>

theorem scan_order_independent:
  assumes "0 \<le> c0"
    and "valid_run orders1 left right c0" and "partKS orders1 left right c0 = Some (p1, c1)"
    and "valid_run orders2 left right c0" and "partKS orders2 left right c0 = Some (p2, c2)"
  shows "block_states ` ran (blocks p1) = block_states ` ran (blocks p2)
       \<and> (\<forall>s t. (\<exists>b \<in> ran (blocks p1). s \<in> block_states b \<and> t \<in> block_states b)
                = (\<exists>b \<in> ran (blocks p2). s \<in> block_states b \<and> t \<in> block_states b))
       \<and> (\<forall>bs1 bs2. valid_enum p1 bs1 \<and> valid_enum p2 bs2
              \<longrightarrow> (bisimilar bs1 = None) = (bisimilar bs2 = None))"
proof -
  note i1 = partKS_sound(1)[OF assms(2,3)]
  note i2 = partKS_sound(1)[OF assms(4,5)]
  note r21 = partKS_refines[OF assms(1) assms(2,3) assms(4,5)]
  note r12 = partKS_refines[OF assms(1) assms(4,5) assms(2,3)]
  note s12 = groups_subset[OF i1 i2 r12 r21]
  note s21 = groups_subset[OF i2 i1 r21 r12]
  have g: "block_states ` ran (blocks p1) = block_states ` ran (blocks p2)"
    using s12 s21 by (rule equalityI)
  have e: "\<forall>s t. (\<exists>b \<in> ran (blocks p1). s \<in> block_states b \<and> t \<in> block_states b)
                = (\<exists>b \<in> ran (blocks p2). s \<in> block_states b \<and> t \<in> block_states b)"
    using same_block_groups[OF s12] same_block_groups[OF s21] by blast
  have v: "\<forall>bs1 bs2. valid_enum p1 bs1 \<and> valid_enum p2 bs2
              \<longrightarrow> (bisimilar bs1 = None) = (bisimilar bs2 = None)"
  proof (intro allI impI, elim conjE)
    fix bs1 bs2 assume e1: "valid_enum p1 bs1" and e2: "valid_enum p2 bs2"
    hence r: "set bs1 = ran (blocks p1)" "set bs2 = ran (blocks p2)"
      by (simp_all add: valid_enum_def)
    have "(\<exists>b \<in> ran (blocks p1). \<not> mixed b) = (\<exists>b \<in> ran (blocks p2). \<not> mixed b)"
      using pure_block_groups[OF s12] pure_block_groups[OF s21] by blast
    thus "(bisimilar bs1 = None) = (bisimilar bs2 = None)"
      by (simp add: bisimilar_def bisimilar_loop_None r)
  qed
  from g e v show ?thesis by (intro conjI)
qed

lemma exPart0_B2B:
  "{t \<in> block_states exBlock0. destinations t ''a'' exPart0 \<noteq> destinations 2 ''a'' exPart0} = {0, 1}"
  by (auto simp: exBlock0_def exPart0_dests)

lemma exPart0_B1B:
  "{t \<in> block_states exBlock0. destinations t ''a'' exPart0 = destinations 2 ''a'' exPart0} = {2, 3}"
  by (auto simp: exBlock0_def exPart0_dests)

lemma exPass1B: "scanBlocks [(0, exBlock0, [(''a'', 2)])] exPart0 1 = (exPart1B, 3, True)"
proof -
  have ne: "{t \<in> block_states exBlock0. destinations t ''a'' exPart0 \<noteq> destinations 2 ''a'' exPart0} \<noteq> {}"
    by (simp add: exPart0_B2B)
  have "splitKS 2 exBlock0 ''a'' exPart0 1 =
     (\<lparr>block_id = 1, block_states = {2, 3}\<rparr>, \<lparr>block_id = 2, block_states = {0, 1}\<rparr>, 3)"
    using splitKS_split[OF ne, of 1] by (simp add: exPart0_B1B exPart0_B2B)
  moreover have "refine exPart0 exBlock0 \<lparr>block_id = 1, block_states = {2, 3}\<rparr>
       \<lparr>block_id = 2, block_states = {0, 1}\<rparr> = exPart1B"
    by (auto simp: refine_def add_def remove_def exPart0_def exPart1B_def exBlock0_def
        exBlock1B_def exBlock2B_def fun_eq_iff)
  ultimately show ?thesis by simp
qed

lemma exPart1B_dests:
  "destinations 0 ''a'' exPart1B = [0, 1]" "destinations 1 ''a'' exPart1B = [0, 1]"
  "destinations 2 ''a'' exPart1B = []" "destinations 3 ''a'' exPart1B = []"
  by (simp_all add: dest_eval exPart1B_def exBlock1B_def exBlock2B_def)

lemma exPart1B_noop:
  "{t \<in> block_states exBlock2B. destinations t ''a'' exPart1B \<noteq> destinations 1 ''a'' exPart1B} = {}"
  "{t \<in> block_states exBlock1B. destinations t ''a'' exPart1B \<noteq> destinations 3 ''a'' exPart1B} = {}"
  by (auto simp: exBlock1B_def exBlock2B_def exPart1B_dests)

lemma exPass2B:
  "scanBlocks [(2, exBlock2B, [(''a'', 1)]), (1, exBlock1B, [(''a'', 3)])] exPart1B 3 = (exPart1B, 7, False)"
  by (simp add: splitKS_noop exPart1B_noop) (simp add: exBlock1B_def exBlock2B_def)

lemma exValid0B: "valid_order exPart0 [(0, exBlock0, [(''a'', 2)])]"
  by (simp add: valid_order_def valid_actions_def rep_ok_def exPart0_def exBlock0_def)

lemma exValid1B: "valid_order exPart1B [(2, exBlock2B, [(''a'', 1)]), (1, exBlock1B, [(''a'', 3)])]"
  by (auto simp: valid_order_def valid_actions_def rep_ok_def exPart1B_def exBlock1B_def exBlock2B_def)

lemma exRunB_valid: "valid_run exOrdersB exLeft exRight 0"
  by (simp add: valid_run_def exNew exOrdersB_def exValid0B exValid1B exPass1B exPass2B
        del: scanBlocks.simps)

lemma exRunB: "partKS exOrdersB exLeft exRight 0 = Some (exPart1B, 7)"
  by (simp add: partKS_def exNew exOrdersB_def exPass1B exPass2B del: scanBlocks.simps)

lemma exPart1B_ran: "ran (blocks exPart1B) = {exBlock1B, exBlock2B}"
  by (auto simp: exPart1B_def)

lemma exEnumB: "valid_enum exPart1B [exBlock2B, exBlock1B]"
  by (simp add: valid_enum_def exPart1B_ran) (auto simp: exBlock1B_def exBlock2B_def)

theorem scan_order_independent_witness:
  "(0::int) \<le> 0
   \<and> valid_run exOrders exLeft exRight 0 \<and> partKS exOrders exLeft exRight 0 = Some (exPart1, 7)
   \<and> valid_run exOrdersB exLeft exRight 0 \<and> partKS exOrdersB exLeft exRight 0 = Some (exPart1B, 7)
   \<and> exPart1 \<noteq> exPart1B
   \<and> block_states ` ran (blocks exPart1) = block_states ` ran (blocks exPart1B)
   \<and> valid_enum exPart1 [exBlock1, exBlock2] \<and> valid_enum exPart1B [exBlock2B, exBlock1B]
   \<and> (bisimilar [exBlock1, exBlock2] = None) = (bisimilar [exBlock2B, exBlock1B] = None)"
proof -
  have z: "(0::int) \<le> 0" by simp
  note t = scan_order_independent[OF z exRun_valid exRun exRunB_valid exRunB]
  have g: "block_states ` ran (blocks exPart1) = block_states ` ran (blocks exPart1B)"
    using t by (elim conjE)
  have v: "\<forall>bs1 bs2. valid_enum exPart1 bs1 \<and> valid_enum exPart1B bs2
              \<longrightarrow> (bisimilar bs1 = None) = (bisimilar bs2 = None)"
    using t by (elim conjE)
  have e: "valid_enum exPart1 [exBlock1, exBlock2] \<and> valid_enum exPart1B [exBlock2B, exBlock1B]"
    using exEnum exEnumB by simp
  have b: "(bisimilar [exBlock1, exBlock2] = None) = (bisimilar [exBlock2B, exBlock1B] = None)"
    using v[rule_format, OF e] .
  have "blocks exPart1 1 \<noteq> blocks exPart1B 1"
    by (auto simp: exPart1_def exPart1B_def exBlock1_def exBlock1B_def)
  hence d: "exPart1 \<noteq> exPart1B" by auto
  show ?thesis
    using z exRun_valid exRun exRunB_valid exRunB d g exEnum exEnumB b by (intro conjI)
qed

end
